theory Spec2Isabelle
  imports Main "HOL-Library.Word"
begin

unbundle bit_operations_syntax

section \<open>Value types (order\_types.h)\<close>

text \<open>
  The unsigned 32-bit and 64-bit integers of the source are words: addition and
  subtraction wrap around, the order is the unsigned one. An \<open>int32_t\<close> is kept as its
  32-bit pattern: the source only ever adds it to an unsigned lane (the conversion to
  \<open>uint32_t\<close> keeps the bits) or sign-extends it to 64 bits (\<open>scast\<close>).

  The price type is the template parameter \<open>PriceType\<close> of \<open>OrderBook\<close>, a type with the
  linear order that \<open>std::map\<close> requires of its keys and with the value \<open>0\<close>. For
  \<open>OrderBook<double>\<close> these are the doubles that compare linearly (no NaN), and the
  \<open>double\<close> fields of \<open>Order\<close>, \<open>PriceLevel\<close> and \<open>MatchResult\<close> hold the same type.
\<close>

type_synonym u32 = "32 word"
type_synonym i32 = "32 word"
type_synonym u64 = "64 word"

datatype Side = BUY | SELL

datatype OrderType = LIMIT | MARKET | IOC

definition MAX_ID_LENGTH :: nat where
  "MAX_ID_LENGTH = 16"

text \<open>
  A fixed 16-byte identifier is modelled by the bytes before the terminator that
  \<open>set_id\<close> writes: at most 15 of them. \<open>get_id\<close> reads a C string, which ends at the
  first NUL byte.
\<close>

definition set_id :: "string \<Rightarrow> string" where
  "set_id id_str = take (min (length id_str) (MAX_ID_LENGTH - 1)) id_str"

definition get_id :: "string \<Rightarrow> string" where
  "get_id stored = takeWhile (\<lambda>c. c \<noteq> CHR 0x00) stored"

definition set_counterparty_id :: "string \<Rightarrow> string" where
  "set_counterparty_id ident = take (min (length ident) (MAX_ID_LENGTH - 1)) ident"

text \<open>
  \<open>Order.timestamp\<close> is written from the system clock and never read; it has no field
  here.
\<close>

record 'p Order =
  order_id :: string
  order_price :: 'p
  order_quantity :: u32
  order_side :: Side
  order_type :: OrderType

record 'p PriceLevel =
  price :: 'p
  total_quantity :: u32
  order_count :: u32
  padding :: u32

record 'p MatchResult =
  match_quantity :: u32
  match_price :: 'p
  counterparty_id :: string

text \<open>\<open>PriceLevel::update_quantity\<close>: both additions are unsigned 32-bit additions.\<close>

definition update_quantity :: "i32 \<Rightarrow> 'p PriceLevel \<Rightarrow> 'p PriceLevel" where
  "update_quantity delta l =
     l\<lparr>total_quantity := total_quantity l + delta, order_count := order_count l + 1\<rparr>"

section \<open>Batch operations (order\_types.h)\<close>

text \<open>
  The batch functions write through \<open>PriceLevel*\<close> pointers, and two pointers of one
  batch may be equal. The levels therefore live in a store, a function from handles to
  levels; a pointer is \<open>Some h\<close> or \<open>None\<close> for the null pointer, and a non-null pointer
  is taken to be valid. The arrays of four are lists of length four.
\<close>

type_synonym ('h, 'p) store = "'h \<Rightarrow> 'p PriceLevel"

text \<open>
  The first loop of \<open>process_quantity_updates\<close>: lane \<open>i\<close> below \<open>count\<close> gets the
  fields of \<open>levels[i]\<close>, or 0 for a null pointer. The source leaves the lanes from
  \<open>count\<close> on uninitialised and never stores them back; they are 0 here.
\<close>

definition load_quantities ::
  "'h option list \<Rightarrow> nat \<Rightarrow> ('h, 'p) store \<Rightarrow> u32 list" where
  "load_quantities levels count st =
     map (\<lambda>i. if i < count
               then (case levels ! i of Some h \<Rightarrow> total_quantity (st h) | None \<Rightarrow> 0)
               else 0) [0..<4]"

definition load_counts ::
  "'h option list \<Rightarrow> nat \<Rightarrow> ('h, 'p) store \<Rightarrow> u32 list" where
  "load_counts levels count st =
     map (\<lambda>i. if i < count
               then (case levels ! i of Some h \<Rightarrow> order_count (st h) | None \<Rightarrow> 0)
               else 0) [0..<4]"

text \<open>\<open>vaddq_u32\<close>: lane-wise wrapping addition; \<open>vdupq_n_u32\<close>: four equal lanes.\<close>

definition vaddq_u32 :: "u32 list \<Rightarrow> u32 list \<Rightarrow> u32 list" where
  "vaddq_u32 a b = map2 (+) a b"

definition vdupq_n_u32 :: "u32 \<Rightarrow> u32 list" where
  "vdupq_n_u32 v = replicate 4 v"

text \<open>The last loop: the lanes are written back in index order.\<close>

definition store_lane ::
  "'h option list \<Rightarrow> u32 list \<Rightarrow> u32 list \<Rightarrow> nat \<Rightarrow> ('h, 'p) store \<Rightarrow> ('h, 'p) store" where
  "store_lane levels quantities counts i st =
     (case levels ! i of
        Some h \<Rightarrow> st(h := (st h)\<lparr>total_quantity := quantities ! i, order_count := counts ! i\<rparr>)
      | None \<Rightarrow> st)"

definition process_quantity_updates ::
  "'h option list \<Rightarrow> i32 list \<Rightarrow> nat \<Rightarrow> ('h, 'p) store \<Rightarrow> ('h, 'p) store" where
  "process_quantity_updates levels deltas count st =
     (let quantities = load_quantities levels count st;
          counts = load_counts levels count st;
          q_vec = vaddq_u32 quantities deltas;
          c_vec = vaddq_u32 counts (vdupq_n_u32 1)
      in fold (store_lane levels q_vec c_vec) [0..<count] st)"

text \<open>
  \<open>process_single_update\<close>: \<open>vld1_u32(&level->total_quantity)\<close> loads the two adjacent
  fields \<open>total_quantity\<close> (lane 0) and \<open>order_count\<close> (lane 1). The update vector is
  made by \<open>vcreate_u32\<close> from a 64-bit value, low half in lane 0 and high half in lane
  1; \<open>(uint64_t)delta\<close> converts the signed \<open>delta\<close>, which sign-extends it.
\<close>

definition vcreate_u32 :: "u64 \<Rightarrow> u32 \<times> u32" where
  "vcreate_u32 v = (ucast v, ucast (drop_bit 32 v))"

definition vadd_u32 :: "u32 \<times> u32 \<Rightarrow> u32 \<times> u32 \<Rightarrow> u32 \<times> u32" where
  "vadd_u32 a b = (fst a + fst b, snd a + snd b)"

definition process_single_update ::
  "'h option \<Rightarrow> i32 \<Rightarrow> ('h, 'p) store \<Rightarrow> ('h, 'p) store" where
  "process_single_update level delta st =
     (case level of
        None \<Rightarrow> st
      | Some h \<Rightarrow>
          (let current = (total_quantity (st h), order_count (st h));
               update = vcreate_u32 ((scast delta :: u64) OR push_bit 32 1);
               result = vadd_u32 current update
           in st(h := (st h)\<lparr>total_quantity := fst result, order_count := snd result\<rparr>)))"

text \<open>
  The scalar definition of the batch update, in the words of the specification: for each
  of the first \<open>count\<close> pairs in turn, a non-null handle's level gets
  \<open>total_quantity += delta\<close> and \<open>order_count += 1\<close>, and a null handle is skipped.
\<close>

definition scalar_update :: "'h option \<Rightarrow> i32 \<Rightarrow> ('h, 'p) store \<Rightarrow> ('h, 'p) store" where
  "scalar_update level delta st =
     (case level of None \<Rightarrow> st | Some h \<Rightarrow> st(h := update_quantity delta (st h)))"

definition scalar_quantity_updates ::
  "'h option list \<Rightarrow> i32 list \<Rightarrow> nat \<Rightarrow> ('h, 'p) store \<Rightarrow> ('h, 'p) store" where
  "scalar_quantity_updates levels deltas count st =
     fold (\<lambda>i. scalar_update (levels ! i) (deltas ! i)) [0..<count] st"

section \<open>Ingress ring (lock\_free\_queue.h)\<close>

text \<open>
  The ring is modelled for one thread running alone: every atomic load sees the last
  store, and a compare-exchange fails only if the value differs from the expected one.
  \<open>N\<close>, the template parameter, is the length of \<open>buffer\<close>; \<open>zero\<close> is the
  value-initialised payload of a fresh slot. The members \<open>head_\<close>, \<open>tail_\<close> and
  \<open>buffer_\<close> are the fields \<open>head\<close>, \<open>tail\<close> and \<open>buffer\<close>.
\<close>

record 'a Node =
  data :: 'a
  sequence :: u64

record 'a LockFreeQueue =
  head :: u64
  tail :: u64
  buffer :: "'a Node list"

definition EMPTY_SEQUENCE :: u64 where
  "EMPTY_SEQUENCE = NOT 0"

definition BUFFER_MASK :: "nat \<Rightarrow> u64" where
  "BUFFER_MASK N = of_nat N - 1"

definition LockFreeQueue_new :: "nat \<Rightarrow> 'a \<Rightarrow> 'a LockFreeQueue" where
  "LockFreeQueue_new N zero =
     \<lparr>head = 0, tail = 0,
      buffer = map (\<lambda>node. node\<lparr>sequence := EMPTY_SEQUENCE\<rparr>)
                   (replicate N \<lparr>data = zero, sequence = 0\<rparr>)\<rparr>"

definition compare_exchange_strong :: "u64 \<Rightarrow> u64 \<Rightarrow> u64 \<Rightarrow> bool \<times> u64" where
  "compare_exchange_strong current expected desired =
     (if current = expected then (True, desired) else (False, current))"

definition try_enqueue :: "'a \<Rightarrow> 'a LockFreeQueue \<Rightarrow> bool \<times> 'a LockFreeQueue" where
  "try_enqueue d q =
     (let t = tail q;
          i = unat (t AND BUFFER_MASK (length (buffer q)));
          seq = sequence (buffer q ! i)
      in if seq = t
         then (let (ok, t') = compare_exchange_strong (tail q) t (t + 1)
               in if ok
                  then (True, q\<lparr>tail := t',
                                 buffer := (buffer q)[i := \<lparr>data = d, sequence = t + 1\<rparr>]\<rparr>)
                  else (False, q))
         else (False, q))"

definition try_dequeue :: "'a LockFreeQueue \<Rightarrow> 'a option \<times> 'a LockFreeQueue" where
  "try_dequeue q =
     (let h = head q;
          i = unat (h AND BUFFER_MASK (length (buffer q)));
          node = buffer q ! i;
          seq = sequence node
      in if seq = h + 1
         then (let (ok, h') = compare_exchange_strong (head q) h (h + 1)
               in if ok
                  then (Some (data node),
                        q\<lparr>head := h',
                          buffer := (buffer q)[i := node\<lparr>sequence := h + of_nat (length (buffer q))\<rparr>]\<rparr>)
                  else (None, q))
         else (None, q))"

section \<open>The order book (order\_book.h)\<close>

text \<open>
  A \<open>std::map<PriceType, PriceLevel>\<close> is modelled by its keys in iteration order
  (ascending) and by the store that holds the node of each key: the fields \<open>bids\<close> and
  \<open>asks\<close> are the keys of \<open>bids_\<close> and \<open>asks_\<close>, the level of key \<open>p\<close> in
  \<open>bids_\<close> is at the handle \<open>(BUY, p)\<close>, the level of key \<open>p\<close> in \<open>asks_\<close> at
  \<open>(SELL, p)\<close>. The pointer \<open>&(it->second)\<close> is that handle. The store of a key that is
  not in the map is memory the map does not own: \<open>try_emplace\<close> overwrites it when it
  creates the node, \<open>erase\<close> only drops the key. The ingress queue and the order-id
  counter of \<open>OrderBook\<close> are not touched by any operation below and have no field; the
  lock is held for the whole of each operation, so each operation is one step.
\<close>

record 'p OrderBook =
  bids :: "'p list"
  asks :: "'p list"
  level_at :: "(Side \<times> 'p, 'p) store"

definition SIMD_WIDTH :: nat where
  "SIMD_WIDTH = 4"

definition OrderBook_new :: "(Side \<times> 'p, 'p) store \<Rightarrow> 'p OrderBook" where
  "OrderBook_new mem = \<lparr>bids = [], asks = [], level_at = mem\<rparr>"

definition book :: "Side \<Rightarrow> 'p OrderBook \<Rightarrow> 'p list" where
  "book sd s = (case sd of BUY \<Rightarrow> bids s | SELL \<Rightarrow> asks s)"

definition set_book :: "Side \<Rightarrow> 'p list \<Rightarrow> 'p OrderBook \<Rightarrow> 'p OrderBook" where
  "set_book sd ks s = (case sd of BUY \<Rightarrow> s\<lparr>bids := ks\<rparr> | SELL \<Rightarrow> s\<lparr>asks := ks\<rparr>)"

text \<open>The elements \<open>(key, level)\<close> of one map, from \<open>begin()\<close> to \<open>end()\<close>.\<close>

definition entries :: "Side \<Rightarrow> 'p OrderBook \<Rightarrow> ('p \<times> 'p PriceLevel) list" where
  "entries sd s = map (\<lambda>k. (k, level_at s (sd, k))) (book sd s)"

text \<open>
  \<open>try_emplace\<close> leaves the map alone when the key is present and otherwise creates
  the node in key order; either way it yields the handle of the key's level.
\<close>

definition try_emplace ::
  "Side \<Rightarrow> 'p::linorder \<Rightarrow> 'p PriceLevel \<Rightarrow> 'p OrderBook \<Rightarrow> (Side \<times> 'p) \<times> 'p OrderBook" where
  "try_emplace sd k v s =
     (if k \<in> set (book sd s) then ((sd, k), s)
      else ((sd, k), set_book sd (insort k (book sd s)) (s\<lparr>level_at := (level_at s)((sd, k) := v)\<rparr>)))"

text \<open>
  The loop of \<open>process_limit_orders_batch\<close>, with its variables \<open>levels\<close>, \<open>deltas\<close>
  and \<open>batch_size\<close> as arguments, and the function itself.
\<close>

fun batch_loop ::
  "('p::linorder) Order list \<Rightarrow> (Side \<times> 'p) option list \<Rightarrow> i32 list \<Rightarrow> nat \<Rightarrow> 'p OrderBook
   \<Rightarrow> (Side \<times> 'p) option list \<times> i32 list \<times> nat \<times> 'p OrderBook" where
  "batch_loop [] levels deltas batch_size s = (levels, deltas, batch_size, s)"
| "batch_loop (order # orders) levels deltas batch_size s =
     (let (it, s1) = try_emplace (order_side order) (order_price order)
                       \<lparr>price = order_price order, total_quantity = 0,
                        order_count = 0, padding = 0\<rparr> s;
          levels1 = levels[batch_size := Some it];
          deltas1 = deltas[batch_size := order_quantity order];
          batch_size1 = batch_size + 1
      in if batch_size1 = SIMD_WIDTH
         then batch_loop orders levels1 deltas1 0
                (s1\<lparr>level_at := process_quantity_updates levels1 deltas1 SIMD_WIDTH (level_at s1)\<rparr>)
         else batch_loop orders levels1 deltas1 batch_size1 s1)"

definition process_limit_orders_batch :: "('p::linorder) Order list \<Rightarrow> 'p OrderBook \<Rightarrow> 'p OrderBook" where
  "process_limit_orders_batch orders s =
     (let (levels, deltas, batch_size, s1) =
            batch_loop orders (replicate SIMD_WIDTH None) (replicate SIMD_WIDTH 0) 0 s
      in if batch_size > 0
         then s1\<lparr>level_at := process_quantity_updates levels deltas batch_size (level_at s1)\<rparr>
         else s1)"

text \<open>
  The loop of \<open>match_market_order_simd\<close> over the keys of the chosen map \<open>bk\<close>, from
  \<open>begin()\<close>. It yields the keys the map keeps, the store and the matches, in the order
  they were pushed. The negated \<open>int32_t\<close> is the two's-complement negation.
\<close>

fun match_loop ::
  "string \<Rightarrow> Side \<Rightarrow> 'p list \<Rightarrow> u32 \<Rightarrow> (Side \<times> 'p, 'p) store
   \<Rightarrow> 'p list \<times> (Side \<times> 'p, 'p) store \<times> 'p MatchResult list" where
  "match_loop ident bk [] remaining st = ([], st, [])"
| "match_loop ident bk (k # ks) remaining st =
     (if remaining > 0
      then (let level = st (bk, k);
                matched = min remaining (total_quantity level);
                ms = (if matched > 0
                      then [\<lparr>match_quantity = matched, match_price = price level,
                             counterparty_id = set_counterparty_id ident\<rparr>]
                      else []);
                st1 = (if matched > 0
                       then st((bk, k) := update_quantity (- matched) level)
                       else st);
                remaining1 = (if matched > 0 then remaining - matched else remaining);
                (ks', st', ms') = match_loop ident bk ks remaining1 st1
            in if total_quantity (st1 (bk, k)) = 0
               then (ks', st', ms @ ms')
               else (k # ks', st', ms @ ms'))
      else (k # ks, st, []))"

definition match_market_order_simd ::
  "'p Order \<Rightarrow> 'p OrderBook \<Rightarrow> 'p MatchResult list \<times> 'p OrderBook" where
  "match_market_order_simd order s =
     (let bk = (if order_side order = BUY then SELL else BUY);
          (ks, st, matches) = match_loop (get_id (order_id order)) bk (book bk s)
                                (order_quantity order) (level_at s)
      in (matches, set_book bk ks (s\<lparr>level_at := st\<rparr>)))"

text \<open>\<open>std::max_element\<close> and \<open>std::min_element\<close> on a range with first element \<open>x\<close>.\<close>

fun max_element :: "('a \<Rightarrow> 'a \<Rightarrow> bool) \<Rightarrow> 'a \<Rightarrow> 'a list \<Rightarrow> 'a" where
  "max_element cmp largest [] = largest"
| "max_element cmp largest (x # xs) =
     max_element cmp (if cmp largest x then x else largest) xs"

fun min_element :: "('a \<Rightarrow> 'a \<Rightarrow> bool) \<Rightarrow> 'a \<Rightarrow> 'a list \<Rightarrow> 'a" where
  "min_element cmp smallest [] = smallest"
| "min_element cmp smallest (x # xs) =
     min_element cmp (if cmp x smallest then x else smallest) xs"

definition get_best_bid :: "('p::{linorder,zero}) OrderBook \<Rightarrow> 'p" where
  "get_best_bid s =
     (case entries BUY s of
        [] \<Rightarrow> 0
      | e # es \<Rightarrow> fst (max_element (\<lambda>a b. fst a < fst b) e es))"

definition get_best_ask :: "('p::{linorder,zero}) OrderBook \<Rightarrow> 'p" where
  "get_best_ask s =
     (case entries SELL s of
        [] \<Rightarrow> 0
      | e # es \<Rightarrow> fst (min_element (\<lambda>a b. fst a < fst b) e es))"

definition add_limit_order ::
  "Side \<Rightarrow> 'p::linorder \<Rightarrow> u32 \<Rightarrow> string \<Rightarrow> 'p OrderBook \<Rightarrow> bool \<times> 'p OrderBook" where
  "add_limit_order sd p quantity ident s =
     (let order = \<lparr>order_id = set_id ident, order_price = p, order_quantity = quantity,
                   order_side = sd, order_type = LIMIT\<rparr>
      in (True, process_limit_orders_batch [order] s))"

definition process_market_order ::
  "Side \<Rightarrow> u32 \<Rightarrow> string \<Rightarrow> ('p::{linorder,zero}) OrderBook \<Rightarrow> 'p MatchResult list \<times> 'p OrderBook" where
  "process_market_order sd quantity ident s =
     match_market_order_simd
       \<lparr>order_id = set_id ident, order_price = 0, order_quantity = quantity,
        order_side = sd, order_type = MARKET\<rparr> s"

definition get_best_prices :: "('p::{linorder,zero}) OrderBook \<Rightarrow> 'p \<times> 'p" where
  "get_best_prices s = (get_best_bid s, get_best_ask s)"

text \<open>
  \<open>std::sort\<close> with a comparator, as an insertion sort. The keys of a map are distinct,
  so the order of equivalent elements, which \<open>std::sort\<close> leaves open, never matters.
\<close>

fun insert_by :: "('a \<Rightarrow> 'a \<Rightarrow> bool) \<Rightarrow> 'a \<Rightarrow> 'a list \<Rightarrow> 'a list" where
  "insert_by cmp x [] = [x]"
| "insert_by cmp x (y # ys) =
     (if cmp x y then x # y # ys else y # insert_by cmp x ys)"

definition std_sort :: "('a \<Rightarrow> 'a \<Rightarrow> bool) \<Rightarrow> 'a list \<Rightarrow> 'a list" where
  "std_sort cmp xs = foldr (insert_by cmp) xs []"

definition get_depth :: "Side \<Rightarrow> nat \<Rightarrow> ('p::linorder) OrderBook \<Rightarrow> 'p PriceLevel list" where
  "get_depth sd levels s =
     (let sorted_levels =
            (if sd = BUY
             then std_sort (\<lambda>a b. fst a > fst b) (entries sd s)
             else std_sort (\<lambda>a b. fst a < fst b) (entries sd s))
      in map snd (take levels sorted_levels))"

section \<open>Sequences of operations\<close>

text \<open>
  The two mutating operations of the public interface, and a book after a finite
  sequence of them. \<open>OrderBook_new mem\<close> is the freshly constructed book, whatever the
  memory holds.
\<close>

datatype 'p operation = AddLimit Side 'p u32 string | MarketOrder Side u32 string

fun apply_operation :: "('p::{linorder,zero}) operation \<Rightarrow> 'p OrderBook \<Rightarrow> 'p OrderBook" where
  "apply_operation (AddLimit sd p q ident) s = snd (add_limit_order sd p q ident s)"
| "apply_operation (MarketOrder sd q ident) s = snd (process_market_order sd q ident s)"

definition run :: "('p::{linorder,zero}) operation list \<Rightarrow> 'p OrderBook \<Rightarrow> 'p OrderBook" where
  "run ops s = fold apply_operation ops s"

definition blank_memory :: "(Side \<times> 'p, 'p) store" where
  "blank_memory h = \<lparr>price = snd h, total_quantity = 0, order_count = 0, padding = 0\<rparr>"

text \<open>The side a market order consumes from.\<close>

fun opposing :: "Side \<Rightarrow> Side" where
  "opposing BUY = SELL"
| "opposing SELL = BUY"

text \<open>
  The quantities the properties speak of, as natural numbers: what rests on one side,
  what a match list fills, what a sequence of operations adds to a side, and what the
  market orders of a sequence started in \<open>s\<close> consume from a side.
\<close>

definition resting :: "Side \<Rightarrow> 'p OrderBook \<Rightarrow> nat" where
  "resting sd s = sum_list (map (\<lambda>k. unat (total_quantity (level_at s (sd, k)))) (book sd s))"

definition matched_sum :: "'p MatchResult list \<Rightarrow> nat" where
  "matched_sum ms = sum_list (map (\<lambda>m. unat (match_quantity m)) ms)"

fun added_on :: "Side \<Rightarrow> 'p operation list \<Rightarrow> nat" where
  "added_on sd [] = 0"
| "added_on sd (AddLimit sd' p q ident # ops) = (if sd' = sd then unat q else 0) + added_on sd ops"
| "added_on sd (MarketOrder sd' q ident # ops) = added_on sd ops"

fun consumed_from :: "Side \<Rightarrow> ('p::{linorder,zero}) operation list \<Rightarrow> 'p OrderBook \<Rightarrow> nat" where
  "consumed_from sd [] s = 0"
| "consumed_from sd (AddLimit sd' p q ident # ops) s =
     consumed_from sd ops (apply_operation (AddLimit sd' p q ident) s)"
| "consumed_from sd (MarketOrder sd' q ident # ops) s =
     (if opposing sd' = sd then matched_sum (fst (process_market_order sd' q ident s)) else 0)
     + consumed_from sd ops (apply_operation (MarketOrder sd' q ident) s)"

text \<open>
  The quantity resting at one price (0 when the side has no level there), the sequences
  in which no limit add takes a level's 32-bit \<open>total_quantity\<close> past \<open>2^32 - 1\<close>,
  the sequences in which every limit add has a quantity above 0, and the books in which
  no level has \<open>total_quantity = 0\<close>.
\<close>

definition level_quantity :: "Side \<Rightarrow> 'p \<Rightarrow> 'p OrderBook \<Rightarrow> u32" where
  "level_quantity sd p s = (if p \<in> set (book sd s) then total_quantity (level_at s (sd, p)) else 0)"

fun adds_fit :: "('p::{linorder,zero}) operation list \<Rightarrow> 'p OrderBook \<Rightarrow> bool" where
  "adds_fit [] s = True"
| "adds_fit (AddLimit sd p q ident # ops) s =
     (unat (level_quantity sd p s) + unat q < 2 ^ 32
      \<and> adds_fit ops (apply_operation (AddLimit sd p q ident) s))"
| "adds_fit (MarketOrder sd q ident # ops) s =
     adds_fit ops (apply_operation (MarketOrder sd q ident) s)"

fun adds_positive :: "'p operation list \<Rightarrow> bool" where
  "adds_positive [] = True"
| "adds_positive (AddLimit sd p q ident # ops) = (0 < q \<and> adds_positive ops)"
| "adds_positive (MarketOrder sd q ident # ops) = adds_positive ops"

definition no_empty_level :: "'p OrderBook \<Rightarrow> bool" where
  "no_empty_level s \<longleftrightarrow>
     list_all (\<lambda>k. total_quantity (level_at s (BUY, k)) \<noteq> 0) (bids s)
     \<and> list_all (\<lambda>k. total_quantity (level_at s (SELL, k)) \<noteq> 0) (asks s)"

text \<open>
  The events in the life of the level at price \<open>p\<close> on side \<open>sd\<close>, counted along a
  sequence started in \<open>s\<close>: the limit adds at that level, and the market-order fills at
  its price that left it in the book (the partial fills). Both counts start again at 0
  when the level is erased; \<open>n\<close> is the count so far.
\<close>

fun limit_adds_at ::
  "Side \<Rightarrow> 'p \<Rightarrow> ('p::{linorder,zero}) operation list \<Rightarrow> 'p OrderBook \<Rightarrow> nat \<Rightarrow> nat" where
  "limit_adds_at sd p [] s n = n"
| "limit_adds_at sd p (AddLimit sd' p' q ident # ops) s n =
     limit_adds_at sd p ops (apply_operation (AddLimit sd' p' q ident) s)
       (if sd' = sd \<and> p' = p then n + 1 else n)"
| "limit_adds_at sd p (MarketOrder sd' q ident # ops) s n =
     limit_adds_at sd p ops (apply_operation (MarketOrder sd' q ident) s)
       (if p \<in> set (book sd (apply_operation (MarketOrder sd' q ident) s)) then n else 0)"

fun partial_fills_at ::
  "Side \<Rightarrow> 'p \<Rightarrow> ('p::{linorder,zero}) operation list \<Rightarrow> 'p OrderBook \<Rightarrow> nat \<Rightarrow> nat" where
  "partial_fills_at sd p [] s n = n"
| "partial_fills_at sd p (AddLimit sd' p' q ident # ops) s n =
     partial_fills_at sd p ops (apply_operation (AddLimit sd' p' q ident) s) n"
| "partial_fills_at sd p (MarketOrder sd' q ident # ops) s n =
     partial_fills_at sd p ops (apply_operation (MarketOrder sd' q ident) s)
       (if p \<in> set (book sd (apply_operation (MarketOrder sd' q ident) s))
        then (if opposing sd' = sd
                 \<and> p \<in> set (map match_price (fst (process_market_order sd' q ident s)))
              then n + 1 else n)
        else 0)"

text \<open>The non-null handles among the first \<open>count\<close> pointers of a batch.\<close>

definition handles_of :: "'h option list \<Rightarrow> nat \<Rightarrow> 'h list" where
  "handles_of levels count = map the (filter (\<lambda>l. l \<noteq> None) (take count levels))"

text \<open>
  What \<open>std::map\<close> guarantees of each side and what the code keeps: the keys are in
  strictly ascending order, and the \<open>price\<close> field of a level is its key.
\<close>

definition side_wf :: "Side \<Rightarrow> ('p::linorder) OrderBook \<Rightarrow> bool" where
  "side_wf sd s \<longleftrightarrow>
     sorted_wrt (<) (book sd s) \<and> list_all (\<lambda>k. price (level_at s (sd, k)) = k) (book sd s)"

definition well_formed :: "('p::linorder) OrderBook \<Rightarrow> bool" where
  "well_formed s \<longleftrightarrow> side_wf BUY s \<and> side_wf SELL s"

section \<open>Properties\<close>


subsection \<open>The ingress ring\<close>

lemma try_enqueue_fresh:
  "0 < N \<Longrightarrow> try_enqueue d (LockFreeQueue_new N zero) = (False, LockFreeQueue_new N zero)"
  by (simp add: try_enqueue_def LockFreeQueue_new_def EMPTY_SEQUENCE_def)

text \<open>
  Claim C2. The ring refuses an element only when it is full: slot \<open>i\<close> starts with
  sequence \<open>i\<close>, so the first \<open>try_enqueue\<close> on a freshly constructed ring returns
  true. The constructor stores \<open>EMPTY_SEQUENCE\<close>, all bits set, in every slot instead;
  \<open>try_enqueue\<close> then finds the sequence of slot 0 different from the tail 0 and returns
  false, on a ring of capacity 4 as on any other (\<open>try_enqueue_fresh\<close>), and leaves the
  ring as it was, so every later attempt fails too.
\<close>

theorem try_enqueue_fresh_ring_returns_false:
  "fst (try_enqueue
         \<lparr>order_id = ''A'', order_price = (100::int), order_quantity = 1000,
          order_side = BUY, order_type = LIMIT\<rparr>
         (LockFreeQueue_new 4
            \<lparr>order_id = [], order_price = 0, order_quantity = 0,
             order_side = BUY, order_type = LIMIT\<rparr>)) = False"
  by (simp add: try_enqueue_fresh)

subsection \<open>The batch quantity updater\<close>

lemma upt_0_4: "[0..<4] = [0, 1, 2, 3]"
  by (simp add: upt_rec)

lemma upt_0_3: "[0..<3] = [0, 1, 2]"
  by (simp add: upt_rec)

lemma upt_0_2: "[0..<2] = [0, 1]"
  by (simp add: upt_rec)

lemmas batch_defs =
  process_quantity_updates_def scalar_quantity_updates_def load_quantities_def load_counts_def
  vaddq_u32_def vdupq_n_u32_def store_lane_def scalar_update_def update_quantity_def
  handles_of_def numeral_eq_Suc

text \<open>
  With no handle twice among the first \<open>count\<close> pointers, the four-wide update is the
  scalar loop.
\<close>

lemma process_quantity_updates_scalar_lists:
  assumes "distinct (handles_of [a, b, c, d] count)" and "count \<le> 4"
  shows "process_quantity_updates [a, b, c, d] [w, x, y, z] count st
         = scalar_quantity_updates [a, b, c, d] [w, x, y, z] count st"
proof -
  from assms(2) consider "count = 0" | "count = 1" | "count = 2" | "count = 3" | "count = 4"
    by arith
  then show ?thesis
  proof cases
    case 1
    then show ?thesis
      by (simp add: process_quantity_updates_def scalar_quantity_updates_def)
  next
    case 2
    then show ?thesis
      by (cases a) (simp_all add: batch_defs upt_0_4)
  next
    case 3
    with assms(1) show ?thesis
      by (cases a; cases b) (auto simp add: batch_defs upt_0_4 upt_0_2)
  next
    case 4
    with assms(1) show ?thesis
      by (cases a; cases b; cases c) (auto simp add: batch_defs upt_0_4 upt_0_3)
  next
    case 5
    with assms(1) show ?thesis
      by (cases a; cases b; cases c; cases d) (auto simp add: batch_defs upt_0_4)
  qed
qed

lemma process_quantity_updates_scalar:
  assumes "length levels = 4" and "length deltas = 4" and "count \<le> 4"
    and "distinct (handles_of levels count)"
  shows "process_quantity_updates levels deltas count st
         = scalar_quantity_updates levels deltas count st"
proof -
  from assms(1) obtain a b c d where l: "levels = [a, b, c, d]"
    by (auto simp: length_Suc_conv numeral_eq_Suc)
  from assms(2) obtain w x y z where d: "deltas = [w, x, y, z]"
    by (auto simp: length_Suc_conv numeral_eq_Suc)
  from assms(4) have "distinct (handles_of [a, b, c, d] count)"
    by (simp only: l)
  then show ?thesis
    unfolding l d using assms(3) by (rule process_quantity_updates_scalar_lists)
qed

text \<open>
  With the same handle twice, the four-wide update loads the level once per lane and the
  later store wins: of two deltas only the second arrives, and the count goes up by one,
  not two.
\<close>

lemma process_quantity_updates_aliased:
  "process_quantity_updates [Some h, Some h, None, None] [w, x, 0, 0] 2 st
   = st(h := update_quantity x (st h))"
  by (simp add: batch_defs upt_0_4 upt_0_2)

lemma scalar_quantity_updates_aliased:
  "scalar_quantity_updates [Some h, Some h, None, None] [w, x, 0, 0] 2 st
   = st(h := update_quantity x (update_quantity w (st h)))"
  by (simp add: batch_defs upt_0_2)

text \<open>The two lanes of the update vector of \<open>process_single_update\<close>.\<close>

lemma bit_2_32_word:
  "bit (4294967296 :: 'a::len word) n \<longleftrightarrow> n = 32 \<and> 32 < LENGTH('a)"
proof -
  have "(4294967296 :: 'a word) = 2 ^ 32" by simp
  then show ?thesis by (simp only: bit_simps) auto
qed

lemma bit_2_32_int: "bit (4294967296 :: int) n \<longleftrightarrow> n = 32"
proof -
  have "(4294967296 :: int) = 2 ^ 32" by simp
  then show ?thesis by (simp only: bit_simps) auto
qed

lemma low_lane: "ucast ((scast (delta :: i32) :: u64) OR push_bit 32 1) = delta"
  by (rule bit_word_eqI) (auto simp: bit_simps bit_2_32_word bit_2_32_int)

lemma sign_bit: "bit (delta :: i32) 31 \<longleftrightarrow> sint delta < 0"
  using bit_last_iff [of delta] by simp

lemma high_lane:
  "ucast (drop_bit 32 ((scast (delta :: i32) :: u64) OR push_bit 32 1))
   = (if 0 \<le> sint delta then 1 else (- 1 :: u32))"
proof (cases "0 \<le> sint delta")
  case True
  then have nb: "\<not> bit delta 31" by (simp add: sign_bit)
  have "ucast (drop_bit 32 ((scast delta :: u64) OR push_bit 32 1)) = (1 :: u32)"
    by (rule bit_word_eqI) (use nb in \<open>auto simp: bit_simps bit_2_32_word bit_1_iff min_def\<close>)
  with True show ?thesis by simp
next
  case False
  then have b: "bit delta 31" by (simp add: sign_bit)
  have "ucast (drop_bit 32 ((scast delta :: u64) OR push_bit 32 1)) = (- 1 :: u32)"
    by (rule bit_word_eqI) (use b in \<open>auto simp: bit_simps bit_2_32_word bit_1_iff min_def\<close>)
  with False show ?thesis by simp
qed

lemma process_single_update_lanes:
  "process_single_update (Some h) delta st =
     st(h := (st h)\<lparr>total_quantity := total_quantity (st h) + delta,
                    order_count := order_count (st h) + (if 0 \<le> sint delta then 1 else - 1)\<rparr>)"
  unfolding process_single_update_def vcreate_u32_def vadd_u32_def Let_def option.case
    fst_conv snd_conv
  by (simp only: low_lane high_lane)

text \<open>For a delta that is not negative, the single update is the scalar update.\<close>

lemma process_single_update_scalar:
  "0 \<le> sint delta \<Longrightarrow> process_single_update l delta st = scalar_update l delta st"
  by (cases l)
    (simp_all add: process_single_update_lanes scalar_update_def update_quantity_def,
      simp add: process_single_update_def)

text \<open>
  Claim C9. The batch quantity updater is pointwise a scalar loop: each non-null handle's
  level gets \<open>total_quantity += delta\<close> and \<open>order_count += 1\<close>, null handles are
  skipped, and both vectorised paths compute what the scalar definition computes, for
  every \<open>int32\<close> delta. \<open>process_single_update\<close> does not for a negative delta: the
  conversion of \<open>delta\<close> to 64 bits sign-extends it, the high lane of the update is
  \<open>0xFFFFFFFF\<close> and not 1, and \<open>order_count\<close> goes down by one. On a level with
  quantity 10 and count 1, the delta \<open>-1\<close> leaves the count 0 where the scalar
  definition gives 2.
\<close>

theorem process_single_update_negative_delta:
  "order_count
     (process_single_update (Some (BUY, 100 :: int)) (- 1)
        (blank_memory((BUY, 100) :=
           \<lparr>price = 100, total_quantity = 10, order_count = 1, padding = 0\<rparr>)) (BUY, 100)) = 0
   \<and> order_count
     (scalar_update (Some (BUY, 100 :: int)) (- 1)
        (blank_memory((BUY, 100) :=
           \<lparr>price = 100, total_quantity = 10, order_count = 1, padding = 0\<rparr>)) (BUY, 100)) = 2"
  by (simp add: process_single_update_lanes scalar_update_def update_quantity_def)


subsection \<open>Limit orders\<close>

text \<open>
  A single-order batch is one scalar update of the order's level: \<open>add_limit_order\<close>
  creates the level if the price is new and adds the quantity and one to the count.
\<close>

lemma process_quantity_updates_one:
  "process_quantity_updates [Some h, b, c, d] [w, x, y, z] (Suc 0) st = st(h := update_quantity w (st h))"
  by (simp add: process_quantity_updates_def load_quantities_def load_counts_def upt_0_4
      vaddq_u32_def vdupq_n_u32_def store_lane_def update_quantity_def numeral_eq_Suc)

lemma process_limit_orders_batch_single:
  "process_limit_orders_batch [order] s =
     (let (it, s1) = try_emplace (order_side order) (order_price order)
                       \<lparr>price = order_price order, total_quantity = 0, order_count = 0, padding = 0\<rparr> s
      in s1\<lparr>level_at := (level_at s1)(it := update_quantity (order_quantity order) (level_at s1 it))\<rparr>)"
  by (simp add: process_limit_orders_batch_def SIMD_WIDTH_def numeral_eq_Suc process_quantity_updates_one
      split: prod.splits)

lemma book_set_book [simp]: "book sd' (set_book sd ks s) = (if sd' = sd then ks else book sd' s)"
  by (cases sd; cases sd') (simp_all add: book_def set_book_def)

lemma level_at_set_book [simp]: "level_at (set_book sd ks s) = level_at s"
  by (cases sd) (simp_all add: set_book_def)

lemma book_level_at_update [simp]: "book sd (s\<lparr>level_at := st\<rparr>) = book sd s"
  by (cases sd) (simp_all add: book_def)

lemma book_add_limit_order:
  "book sd' (snd (add_limit_order sd p q ident s)) =
     (if sd' = sd \<and> p \<notin> set (book sd s) then insort p (book sd s) else book sd' s)"
  by (simp add: add_limit_order_def process_limit_orders_batch_single try_emplace_def Let_def)

lemma level_at_add_limit_order:
  "level_at (snd (add_limit_order sd p q ident s)) h =
     (if h = (sd, p)
      then (if p \<in> set (book sd s) then update_quantity q (level_at s (sd, p))
            else \<lparr>price = p, total_quantity = q, order_count = 1, padding = 0\<rparr>)
      else level_at s h)"
  by (simp add: add_limit_order_def process_limit_orders_batch_single try_emplace_def update_quantity_def Let_def)

subsection \<open>The matching loop\<close>

text \<open>
  At a level the loop either has nothing left to fill, or finds the level empty and
  erases it, or drains the level and erases it, or fills the rest of the order from it
  and keeps it.
\<close>

lemma match_loop_zero: "match_loop ident bk ks 0 st = (ks, st, [])"
  by (cases ks) simp_all

lemma match_loop_skip:
  "0 < r \<Longrightarrow> total_quantity (st (bk, k)) = 0 \<Longrightarrow>
   match_loop ident bk (k # ks) r st = match_loop ident bk ks r st"
  by (simp split: prod.splits)

lemma match_loop_drain:
  "0 < total_quantity (st (bk, k)) \<Longrightarrow> total_quantity (st (bk, k)) \<le> r \<Longrightarrow>
   match_loop ident bk (k # ks) r st =
     (case match_loop ident bk ks (r - total_quantity (st (bk, k)))
             (st((bk, k) := update_quantity (- total_quantity (st (bk, k))) (st (bk, k)))) of
        (ks', st', ms') \<Rightarrow>
          (ks', st', \<lparr>match_quantity = total_quantity (st (bk, k)), match_price = price (st (bk, k)),
                      counterparty_id = set_counterparty_id ident\<rparr> # ms'))"
  by (auto simp: min_def update_quantity_def Let_def split: prod.splits)

lemma match_loop_partial:
  "0 < r \<Longrightarrow> r < total_quantity (st (bk, k)) \<Longrightarrow>
   match_loop ident bk (k # ks) r st =
     (k # ks, st((bk, k) := update_quantity (- r) (st (bk, k))),
      [\<lparr>match_quantity = r, match_price = price (st (bk, k)),
        counterparty_id = set_counterparty_id ident\<rparr>])"
  by (auto simp: min_def update_quantity_def Let_def match_loop_zero split: prod.splits)

lemma match_loop_cases:
  obtains (stop) "r = 0"
  | (skip) "0 < r" "total_quantity (st (bk, k)) = 0"
  | (drain) "0 < r" "0 < total_quantity (st (bk, k))" "total_quantity (st (bk, k)) \<le> r"
  | (partial) "0 < r" "r < total_quantity (st (bk, k))"
  by (metis linorder_not_less word_gt_0)

declare match_loop.simps(2) [simp del]

lemma match_loop_suffix:
  "match_loop ident bk ks r st = (ks', st', ms) \<Longrightarrow> \<exists>pre. ks = pre @ ks'"
proof (induction ks arbitrary: r st ks' st' ms)
  case Nil
  then show ?case by simp
next
  case (Cons k ks)
  show ?case
  proof (cases rule: match_loop_cases [where r = r and st = st and bk = bk and k = k])
    case stop
    with Cons.prems show ?thesis by (simp add: match_loop_zero)
  next
    case skip
    with Cons.prems have "match_loop ident bk ks r st = (ks', st', ms)"
      by (simp add: match_loop_skip)
    from Cons.IH [OF this] obtain pre where "ks = pre @ ks'" ..
    then have "k # ks = (k # pre) @ ks'" by simp
    then show ?thesis ..
  next
    case drain
    with Cons.prems obtain ms' where
      "match_loop ident bk ks (r - total_quantity (st (bk, k)))
         (st((bk, k) := update_quantity (- total_quantity (st (bk, k))) (st (bk, k)))) = (ks', st', ms')"
      by (auto simp: match_loop_drain split: prod.splits)
    from Cons.IH [OF this] obtain pre where "ks = pre @ ks'" ..
    then have "k # ks = (k # pre) @ ks'" by simp
    then show ?thesis ..
  next
    case partial
    with Cons.prems have "k # ks = [] @ ks'" by (simp add: match_loop_partial)
    then show ?thesis ..
  qed
qed

lemma match_loop_frame:
  "match_loop ident bk ks r st = (ks', st', ms) \<Longrightarrow> h \<notin> (\<lambda>k. (bk, k)) ` set ks \<Longrightarrow> st' h = st h"
proof (induction ks arbitrary: r st ks' st' ms)
  case Nil
  then show ?case by simp
next
  case (Cons k ks)
  from Cons.prems(2) have h: "h \<noteq> (bk, k)" "h \<notin> (\<lambda>k. (bk, k)) ` set ks" by auto
  show ?case
  proof (cases rule: match_loop_cases [where r = r and st = st and bk = bk and k = k])
    case stop
    with Cons.prems show ?thesis by (simp add: match_loop_zero)
  next
    case skip
    with Cons.prems have "match_loop ident bk ks r st = (ks', st', ms)"
      by (simp add: match_loop_skip)
    from Cons.IH [OF this h(2)] show ?thesis .
  next
    case drain
    with Cons.prems obtain ms' where
      "match_loop ident bk ks (r - total_quantity (st (bk, k)))
         (st((bk, k) := update_quantity (- total_quantity (st (bk, k))) (st (bk, k)))) = (ks', st', ms')"
      by (auto simp: match_loop_drain split: prod.splits)
    from Cons.IH [OF this h(2)] h(1) show ?thesis by simp
  next
    case partial
    with Cons.prems h(1) show ?thesis by (auto simp: match_loop_partial)
  qed
qed

lemma match_loop_price:
  "match_loop ident bk ks r st = (ks', st', ms) \<Longrightarrow> price (st' h) = price (st h)"
proof (induction ks arbitrary: r st ks' st' ms)
  case Nil
  then show ?case by simp
next
  case (Cons k ks)
  show ?case
  proof (cases rule: match_loop_cases [where r = r and st = st and bk = bk and k = k])
    case stop
    with Cons.prems show ?thesis by (simp add: match_loop_zero)
  next
    case skip
    with Cons.prems have "match_loop ident bk ks r st = (ks', st', ms)"
      by (simp add: match_loop_skip)
    from Cons.IH [OF this] show ?thesis .
  next
    case drain
    with Cons.prems obtain ms' where
      "match_loop ident bk ks (r - total_quantity (st (bk, k)))
         (st((bk, k) := update_quantity (- total_quantity (st (bk, k))) (st (bk, k)))) = (ks', st', ms')"
      by (auto simp: match_loop_drain split: prod.splits)
    from Cons.IH [OF this] show ?thesis by (simp add: update_quantity_def)
  next
    case partial
    with Cons.prems show ?thesis by (auto simp: match_loop_partial update_quantity_def)
  qed
qed

lemma sum_list_store_upd:
  "k \<notin> set ks \<Longrightarrow>
   sum_list (map (\<lambda>k'. unat (total_quantity ((st((bk, k) := v)) (bk, k')))) ks)
     = sum_list (map (\<lambda>k'. unat (total_quantity (st (bk, k')))) ks)"
  by (rule arg_cong [where f = sum_list], rule map_cong) auto

lemma matched_sum_simps [simp]:
  "matched_sum [] = 0"
  "matched_sum (m # ms) = unat (match_quantity m) + matched_sum ms"
  by (simp_all add: matched_sum_def)

lemma match_loop_sums:
  "distinct ks \<Longrightarrow> match_loop ident bk ks r st = (ks', st', ms) \<Longrightarrow>
   matched_sum ms = min (unat r) (sum_list (map (\<lambda>k. unat (total_quantity (st (bk, k)))) ks))
   \<and> sum_list (map (\<lambda>k. unat (total_quantity (st' (bk, k)))) ks') + matched_sum ms
       = sum_list (map (\<lambda>k. unat (total_quantity (st (bk, k)))) ks)"
proof (induction ks arbitrary: r st ks' st' ms)
  case Nil
  then show ?case by simp
next
  case (Cons k ks)
  from Cons.prems(1) have k: "k \<notin> set ks" and d: "distinct ks" by simp_all
  let ?t = "total_quantity (st (bk, k))"
  show ?case
  proof (cases rule: match_loop_cases [where r = r and st = st and bk = bk and k = k])
    case stop
    with Cons.prems show ?thesis by (simp add: match_loop_zero)
  next
    case skip
    with Cons.prems have "match_loop ident bk ks r st = (ks', st', ms)"
      by (simp add: match_loop_skip)
    from Cons.IH [OF d this] skip show ?thesis by simp
  next
    case drain
    let ?st1 = "st((bk, k) := update_quantity (- ?t) (st (bk, k)))"
    from drain Cons.prems obtain ms' where
      rec: "match_loop ident bk ks (r - ?t) ?st1 = (ks', st', ms')"
      and ms: "ms = \<lparr>match_quantity = ?t, match_price = price (st (bk, k)),
                     counterparty_id = set_counterparty_id ident\<rparr> # ms'"
      by (auto simp: match_loop_drain split: prod.splits)
    have sub: "unat (r - ?t) = unat r - unat ?t"
      using drain(3) by (simp add: unat_sub)
    have le: "unat ?t \<le> unat r"
      using drain(3) by (simp add: word_le_nat_alt)
    from Cons.IH [OF d rec, unfolded sum_list_store_upd [OF k]] show ?thesis
      using le by (simp add: ms sub)
  next
    case partial
    have sub: "unat (?t - r) = unat ?t - unat r"
      using partial(2) by (simp add: unat_sub)
    have le: "unat r < unat ?t"
      using partial(2) by (simp add: word_less_nat_alt)
    from partial Cons.prems have res: "ks' = k # ks" "ms = [\<lparr>match_quantity = r, match_price = price (st (bk, k)),
        counterparty_id = set_counterparty_id ident\<rparr>]" "st' = st((bk, k) := update_quantity (- r) (st (bk, k)))"
      by (auto simp: match_loop_partial)
    have "sum_list (map (\<lambda>k'. unat (total_quantity (st' (bk, k')))) ks)
            = sum_list (map (\<lambda>k'. unat (total_quantity (st (bk, k')))) ks)"
      unfolding res by (rule sum_list_store_upd [OF k])
    moreover have "unat (total_quantity (st' (bk, k))) = unat ?t - unat r"
      by (simp add: res update_quantity_def sub)
    ultimately show ?thesis
      using le by (simp add: res(1,2))
  qed
qed

lemma match_loop_nonzero:
  "distinct ks \<Longrightarrow> match_loop ident bk ks r st = (ks', st', ms) \<Longrightarrow>
   \<forall>k\<in>set ks. total_quantity (st (bk, k)) \<noteq> 0 \<Longrightarrow>
   \<forall>k\<in>set ks'. total_quantity (st' (bk, k)) \<noteq> 0"
proof (induction ks arbitrary: r st ks' st' ms)
  case Nil
  then show ?case by simp
next
  case (Cons k ks)
  from Cons.prems(1) have k: "k \<notin> set ks" and d: "distinct ks" by simp_all
  let ?t = "total_quantity (st (bk, k))"
  show ?case
  proof (cases rule: match_loop_cases [where r = r and st = st and bk = bk and k = k])
    case stop
    with Cons.prems show ?thesis by (simp add: match_loop_zero)
  next
    case skip
    with Cons.prems have "match_loop ident bk ks r st = (ks', st', ms)"
      by (simp add: match_loop_skip)
    from Cons.IH [OF d this] Cons.prems(3) show ?thesis by simp
  next
    case drain
    let ?st1 = "st((bk, k) := update_quantity (- ?t) (st (bk, k)))"
    from drain Cons.prems obtain ms' where
      rec: "match_loop ident bk ks (r - ?t) ?st1 = (ks', st', ms')"
      by (auto simp: match_loop_drain split: prod.splits)
    have "\<forall>k'\<in>set ks. total_quantity (?st1 (bk, k')) \<noteq> 0"
      using Cons.prems(3) k by auto
    from Cons.IH [OF d rec this] show ?thesis .
  next
    case partial
    have "?t - r \<noteq> 0" using partial(2) by auto
    with partial Cons.prems k show ?thesis
      by (auto simp: match_loop_partial update_quantity_def split: if_splits)
  qed
qed

lemma match_loop_order_count:
  "distinct ks \<Longrightarrow> match_loop ident bk ks r st = (ks', st', ms) \<Longrightarrow>
   \<forall>k\<in>set ks. price (st (bk, k)) = k \<Longrightarrow> k' \<in> set ks' \<Longrightarrow>
   order_count (st' (bk, k')) =
     order_count (st (bk, k')) + (if k' \<in> set (map match_price ms) then 1 else 0)"
proof (induction ks arbitrary: r st ks' st' ms)
  case Nil
  then show ?case by simp
next
  case (Cons k ks)
  from Cons.prems(1) have k: "k \<notin> set ks" and d: "distinct ks" by simp_all
  let ?t = "total_quantity (st (bk, k))"
  show ?case
  proof (cases rule: match_loop_cases [where r = r and st = st and bk = bk and k = k])
    case stop
    with Cons.prems show ?thesis by (simp add: match_loop_zero)
  next
    case skip
    with Cons.prems have "match_loop ident bk ks r st = (ks', st', ms)"
      by (simp add: match_loop_skip)
    from Cons.IH [OF d this] Cons.prems(3,4) show ?thesis by simp
  next
    case drain
    let ?st1 = "st((bk, k) := update_quantity (- ?t) (st (bk, k)))"
    from drain Cons.prems obtain ms' where
      rec: "match_loop ident bk ks (r - ?t) ?st1 = (ks', st', ms')"
      and ms: "ms = \<lparr>match_quantity = ?t, match_price = price (st (bk, k)),
                     counterparty_id = set_counterparty_id ident\<rparr> # ms'"
      by (auto simp: match_loop_drain split: prod.splits)
    from match_loop_suffix [OF rec] Cons.prems(4) have in_ks: "k' \<in> set ks" by auto
    with k have ne: "k' \<noteq> k" by auto
    have p1: "\<forall>k'\<in>set ks. price (?st1 (bk, k')) = k'"
      using Cons.prems(3) k by auto
    have pk: "price (st (bk, k)) = k" using Cons.prems(3) by simp
    from Cons.IH [OF d rec p1 Cons.prems(4)] ne show ?thesis
      by (simp add: ms pk)
  next
    case partial
    have pk: "price (st (bk, k)) = k" using Cons.prems(3) by simp
    from partial Cons.prems k show ?thesis
      by (auto simp: match_loop_partial update_quantity_def pk)
  qed
qed

lemma match_loop_prices:
  "sorted_wrt (<) (ks :: ('p::linorder) list) \<Longrightarrow> match_loop ident bk ks r st = (ks', st', ms) \<Longrightarrow>
   \<forall>k\<in>set ks. price (st (bk, k)) = k \<Longrightarrow>
   sorted_wrt (<) (map match_price ms) \<and> set (map match_price ms) \<subseteq> set ks"
proof (induction ks arbitrary: r st ks' st' ms)
  case Nil
  then show ?case by simp
next
  case (Cons k ks)
  from Cons.prems(1) have k: "\<forall>k'\<in>set ks. k < k'" and d: "sorted_wrt (<) ks" by simp_all
  from k have kn: "k \<notin> set ks" by fastforce
  let ?t = "total_quantity (st (bk, k))"
  show ?case
  proof (cases rule: match_loop_cases [where r = r and st = st and bk = bk and k = k])
    case stop
    with Cons.prems show ?thesis by (simp add: match_loop_zero)
  next
    case skip
    with Cons.prems have "match_loop ident bk ks r st = (ks', st', ms)"
      by (simp add: match_loop_skip)
    from Cons.IH [OF d this] Cons.prems(3) show ?thesis by auto
  next
    case drain
    let ?st1 = "st((bk, k) := update_quantity (- ?t) (st (bk, k)))"
    from drain Cons.prems obtain ms' where
      rec: "match_loop ident bk ks (r - ?t) ?st1 = (ks', st', ms')"
      and ms: "ms = \<lparr>match_quantity = ?t, match_price = price (st (bk, k)),
                     counterparty_id = set_counterparty_id ident\<rparr> # ms'"
      by (auto simp: match_loop_drain split: prod.splits)
    have p1: "\<forall>k'\<in>set ks. price (?st1 (bk, k')) = k'"
      using Cons.prems(3) kn by auto
    have pk: "price (st (bk, k)) = k" using Cons.prems(3) by simp
    from Cons.IH [OF d rec p1] k show ?thesis
      by (auto simp: ms pk)
  next
    case partial
    have pk: "price (st (bk, k)) = k" using Cons.prems(3) by simp
    from partial Cons.prems show ?thesis
      by (auto simp: match_loop_partial pk)
  qed
qed

subsection \<open>Reachable books\<close>

lemma well_formed_all: "well_formed s \<longleftrightarrow> (\<forall>sd. side_wf sd s)"
  unfolding well_formed_def by (metis Side.exhaust)

lemma opposing_ne [simp]: "opposing sd \<noteq> sd" "sd \<noteq> opposing sd"
  by (cases sd; simp)+

lemma process_market_order_eq:
  "process_market_order sd q ident s =
     (case match_loop (get_id (set_id ident)) (opposing sd) (book (opposing sd) s) q (level_at s) of
        (ks, st, ms) \<Rightarrow> (ms, set_book (opposing sd) ks (s\<lparr>level_at := st\<rparr>)))"
  by (cases sd) (simp_all add: process_market_order_def match_market_order_simd_def)

lemma well_formed_new: "well_formed (OrderBook_new mem)"
  by (simp add: well_formed_def side_wf_def OrderBook_new_def book_def)

lemma sorted_wrt_less_insort:
  "sorted_wrt (<) ks \<Longrightarrow> p \<notin> set ks \<Longrightarrow> sorted_wrt (<) (insort p (ks :: ('p::linorder) list))"
  by (simp add: strict_sorted_iff sorted_insort distinct_insort)

lemma side_wf_add:
  assumes "side_wf sd' s"
  shows "side_wf sd' (snd (add_limit_order sd p q ident s))"
proof -
  let ?s' = "snd (add_limit_order sd p q ident s)"
  from assms have so: "sorted_wrt (<) (book sd' s)"
    and pr: "\<forall>k\<in>set (book sd' s). price (level_at s (sd', k)) = k"
    by (simp_all add: side_wf_def list_all_iff)
  have "sorted_wrt (<) (book sd' ?s')"
    using so by (auto simp: book_add_limit_order sorted_wrt_less_insort)
  moreover have "\<forall>k\<in>set (book sd' ?s'). price (level_at ?s' (sd', k)) = k"
    using pr by (auto simp: book_add_limit_order level_at_add_limit_order update_quantity_def set_insort_key)
  ultimately show ?thesis by (simp add: side_wf_def list_all_iff)
qed

lemma well_formed_add: "well_formed s \<Longrightarrow> well_formed (snd (add_limit_order sd p q ident s))"
  by (simp add: well_formed_def side_wf_add)

lemma side_wf_market:
  assumes "side_wf sd' s"
  shows "side_wf sd' (snd (process_market_order sd q ident s))"
proof -
  obtain ks' st' ms where ml:
    "match_loop (get_id (set_id ident)) (opposing sd) (book (opposing sd) s) q (level_at s) = (ks', st', ms)"
    by (cases "match_loop (get_id (set_id ident)) (opposing sd) (book (opposing sd) s) q (level_at s)") auto
  let ?s' = "snd (process_market_order sd q ident s)"
  have s': "?s' = set_book (opposing sd) ks' (s\<lparr>level_at := st'\<rparr>)"
    by (simp add: process_market_order_eq ml)
  from match_loop_suffix [OF ml] obtain pre where pre: "book (opposing sd) s = pre @ ks'" ..
  from assms have so: "sorted_wrt (<) (book sd' s)"
    and pr: "\<forall>k\<in>set (book sd' s). price (level_at s (sd', k)) = k"
    by (simp_all add: side_wf_def list_all_iff)
  have sub: "set (book sd' ?s') \<subseteq> set (book sd' s)"
    using pre by (auto simp: s')
  have "sorted_wrt (<) (book sd' ?s')"
    using so pre by (auto simp: s' sorted_wrt_append)
  moreover have "\<forall>k\<in>set (book sd' ?s'). price (level_at ?s' (sd', k)) = k"
    using pr sub by (auto simp: s' match_loop_price [OF ml])
  ultimately show ?thesis by (simp add: side_wf_def list_all_iff)
qed

lemma well_formed_market: "well_formed s \<Longrightarrow> well_formed (snd (process_market_order sd q ident s))"
  by (simp add: well_formed_def side_wf_market)

lemma well_formed_apply: "well_formed s \<Longrightarrow> well_formed (apply_operation op s)"
  by (cases op) (simp_all add: well_formed_add well_formed_market)

lemma well_formed_run: "well_formed s \<Longrightarrow> well_formed (run ops s)"
  unfolding run_def by (induction ops arbitrary: s) (simp_all add: well_formed_apply)

lemma run_Nil [simp]: "run [] s = s"
  by (simp add: run_def)

lemma run_Cons [simp]: "run (op # ops) s = run ops (apply_operation op s)"
  by (simp add: run_def)

lemma run_append: "run (ops @ ops') s = run ops' (run ops s)"
  by (simp add: run_def)

subsection \<open>Best prices\<close>

lemma max_element_fold:
  "fst (max_element (\<lambda>a b. fst a < fst b) e es) = fold max (map fst es) (fst (e :: ('k::linorder) \<times> 'v))"
  by (induction es arbitrary: e) (auto simp: max_def)

lemma min_element_fold:
  "fst (min_element (\<lambda>a b. fst a < fst b) e es) = fold min (map fst es) (fst (e :: ('k::linorder) \<times> 'v))"
  by (induction es arbitrary: e) (auto simp: min_def)

lemma map_fst_entries [simp]: "map fst (entries sd s) = book sd s"
  by (simp add: entries_def comp_def)

lemma get_best_bid_Max: "get_best_bid s = (if bids s = [] then 0 else Max (set (bids s)))"
proof (cases "bids s")
  case Nil
  then show ?thesis by (simp add: get_best_bid_def entries_def book_def)
next
  case (Cons k ks)
  then have "entries BUY s = (k, level_at s (BUY, k)) # map (\<lambda>k. (k, level_at s (BUY, k))) ks"
    by (simp add: entries_def book_def)
  then show ?thesis
    using Max.set_eq_fold [of k ks]
    by (simp add: get_best_bid_def max_element_fold Cons comp_def)
qed

lemma get_best_ask_Min: "get_best_ask s = (if asks s = [] then 0 else Min (set (asks s)))"
proof (cases "asks s")
  case Nil
  then show ?thesis by (simp add: get_best_ask_def entries_def book_def)
next
  case (Cons k ks)
  then have "entries SELL s = (k, level_at s (SELL, k)) # map (\<lambda>k. (k, level_at s (SELL, k))) ks"
    by (simp add: entries_def book_def)
  then show ?thesis
    using Min.set_eq_fold [of k ks]
    by (simp add: get_best_ask_def min_element_fold Cons comp_def)
qed


text \<open>
  Claim C7. \<open>get_best_prices\<close> returns the pair of the greatest key of the bids and
  the least key of the asks, with 0 for a side that has no level. This holds of every
  book, so of every reachable one.
\<close>

theorem get_best_prices_max_min:
  "get_best_prices s =
     (if bids s = [] then 0 else Max (set (bids s)), if asks s = [] then 0 else Min (set (asks s)))"
  by (simp add: get_best_prices_def get_best_bid_Max get_best_ask_Min)

subsection \<open>Admission of limit orders\<close>

text \<open>
  Claim C3, as the code has it. \<open>add_limit_order\<close> validates nothing: it returns true
  for every side, price, quantity and identifier, a quantity of 0 included.
\<close>

theorem add_limit_order_returns_true: "fst (add_limit_order sd p q ident s) = True"
  by (simp add: add_limit_order_def)

text \<open>
  Claim C3 as stated asks for a false return when the quantity is 0. The call with
  quantity 0 returns true (and leaves a level of quantity 0 behind).
\<close>

theorem add_limit_order_zero_quantity_accepted:
  "fst (add_limit_order BUY (100::int) 0 ''A'' (OrderBook_new blank_memory)) \<noteq> False"
  by (simp add: add_limit_order_def)

subsection \<open>Market orders\<close>

lemma match_loop_positive:
  "match_loop ident bk ks r st = (ks', st', ms) \<Longrightarrow> \<forall>m\<in>set ms. 0 < match_quantity m"
proof (induction ks arbitrary: r st ks' st' ms)
  case Nil
  then show ?case by simp
next
  case (Cons k ks)
  show ?case
  proof (cases rule: match_loop_cases [where r = r and st = st and bk = bk and k = k])
    case stop
    with Cons.prems show ?thesis by (simp add: match_loop_zero)
  next
    case skip
    with Cons.prems have "match_loop ident bk ks r st = (ks', st', ms)"
      by (simp add: match_loop_skip)
    from Cons.IH [OF this] show ?thesis .
  next
    case drain
    with Cons.prems obtain ms' where
      "match_loop ident bk ks (r - total_quantity (st (bk, k)))
         (st((bk, k) := update_quantity (- total_quantity (st (bk, k))) (st (bk, k)))) = (ks', st', ms')"
      and "ms = \<lparr>match_quantity = total_quantity (st (bk, k)), match_price = price (st (bk, k)),
                   counterparty_id = set_counterparty_id ident\<rparr> # ms'"
      by (auto simp: match_loop_drain split: prod.splits)
    with Cons.IH [OF this(1)] drain(2) show ?thesis by simp
  next
    case partial
    with Cons.prems show ?thesis by (auto simp: match_loop_partial)
  qed
qed

lemma matched_sum_zero: "\<forall>m\<in>set ms. 0 < match_quantity m \<Longrightarrow> matched_sum ms = 0 \<Longrightarrow> ms = []"
  by (cases ms) (auto simp: unat_eq_0)

lemma side_wf_distinct: "side_wf sd s \<Longrightarrow> distinct (book sd s)"
  by (simp add: side_wf_def strict_sorted_iff)

lemma entries_market_same_side:
  "entries sd (snd (process_market_order sd q ident s)) = entries sd s"
proof -
  obtain ks' st' ms where ml:
    "match_loop (get_id (set_id ident)) (opposing sd) (book (opposing sd) s) q (level_at s) = (ks', st', ms)"
    by (cases "match_loop (get_id (set_id ident)) (opposing sd) (book (opposing sd) s) q (level_at s)") auto
  have "st' (sd, k) = level_at s (sd, k)" for k
    by (rule match_loop_frame [OF ml]) (cases sd; auto)
  then show ?thesis
    by (simp add: entries_def process_market_order_eq ml)
qed

lemma market_order_sums:
  assumes "well_formed s"
  shows "matched_sum (fst (process_market_order sd q ident s)) = min (unat q) (resting (opposing sd) s)"
    and "resting (opposing sd) (snd (process_market_order sd q ident s))
           + matched_sum (fst (process_market_order sd q ident s)) = resting (opposing sd) s"
proof -
  obtain ks' st' ms where ml:
    "match_loop (get_id (set_id ident)) (opposing sd) (book (opposing sd) s) q (level_at s) = (ks', st', ms)"
    by (cases "match_loop (get_id (set_id ident)) (opposing sd) (book (opposing sd) s) q (level_at s)") auto
  from assms have d: "distinct (book (opposing sd) s)"
    by (simp add: well_formed_all side_wf_distinct)
  from match_loop_sums [OF d ml]
  show "matched_sum (fst (process_market_order sd q ident s)) = min (unat q) (resting (opposing sd) s)"
    and "resting (opposing sd) (snd (process_market_order sd q ident s))
           + matched_sum (fst (process_market_order sd q ident s)) = resting (opposing sd) s"
    by (simp_all add: process_market_order_eq ml resting_def)
qed

lemma market_order_positive:
  "\<forall>m\<in>set (fst (process_market_order sd q ident s)). 0 < match_quantity m"
proof -
  obtain ks' st' ms where ml:
    "match_loop (get_id (set_id ident)) (opposing sd) (book (opposing sd) s) q (level_at s) = (ks', st', ms)"
    by (cases "match_loop (get_id (set_id ident)) (opposing sd) (book (opposing sd) s) q (level_at s)") auto
  from match_loop_positive [OF ml] show ?thesis
    by (simp add: process_market_order_eq ml)
qed

lemma market_order_keys:
  "\<exists>pre. book (opposing sd) s = pre @ book (opposing sd) (snd (process_market_order sd q ident s))"
proof -
  obtain ks' st' ms where ml:
    "match_loop (get_id (set_id ident)) (opposing sd) (book (opposing sd) s) q (level_at s) = (ks', st', ms)"
    by (cases "match_loop (get_id (set_id ident)) (opposing sd) (book (opposing sd) s) q (level_at s)") auto
  from match_loop_suffix [OF ml] show ?thesis
    by (simp add: process_market_order_eq ml)
qed

lemma market_order_prices:
  assumes "well_formed s"
  shows "sorted_wrt (<) (map match_price (fst (process_market_order sd q ident s)))"
proof -
  obtain ks' st' ms where ml:
    "match_loop (get_id (set_id ident)) (opposing sd) (book (opposing sd) s) q (level_at s) = (ks', st', ms)"
    by (cases "match_loop (get_id (set_id ident)) (opposing sd) (book (opposing sd) s) q (level_at s)") auto
  from assms have "side_wf (opposing sd) s" by (simp add: well_formed_all)
  then have so: "sorted_wrt (<) (book (opposing sd) s)"
    and pr: "\<forall>k\<in>set (book (opposing sd) s). price (level_at s (opposing sd, k)) = k"
    by (simp_all add: side_wf_def list_all_iff)
  from match_loop_prices [OF so ml pr] show ?thesis
    by (simp add: process_market_order_eq ml)
qed

lemma well_formed_reachable: "well_formed (run ops (OrderBook_new mem))"
  by (rule well_formed_run [OF well_formed_new])

text \<open>
  Claim C5. For every market order on a reachable book, the quantities of the returned
  matches sum to the smaller of the requested quantity and the quantity resting on the
  opposing side at the call. With nothing resting there the list is empty. What was not
  filled is dropped: the levels of the order's own side are what they were, and on the
  opposing side no key appears that was not there.
\<close>

theorem market_order_match_sum:
  fixes ops :: "('p::{linorder,zero}) operation list" and mem sd q ident
  defines "s \<equiv> run ops (OrderBook_new mem)"
  defines "r \<equiv> process_market_order sd q ident s"
  shows "matched_sum (fst r) = min (unat q) (resting (opposing sd) s)
         \<and> (resting (opposing sd) s = 0 \<longrightarrow> fst r = [])
         \<and> entries sd (snd r) = entries sd s
         \<and> set (book (opposing sd) (snd r)) \<subseteq> set (book (opposing sd) s)"
proof -
  have wf: "well_formed s" unfolding s_def by (rule well_formed_reachable)
  have sum: "matched_sum (fst r) = min (unat q) (resting (opposing sd) s)"
    unfolding r_def by (rule market_order_sums(1) [OF wf])
  have "fst r = []" if "resting (opposing sd) s = 0"
    using matched_sum_zero [OF market_order_positive [of sd q ident s]] sum that
    by (simp add: r_def)
  moreover have "entries sd (snd r) = entries sd s"
    unfolding r_def by (rule entries_market_same_side)
  moreover have "set (book (opposing sd) (snd r)) \<subseteq> set (book (opposing sd) s)"
    using market_order_keys [of sd s q ident] unfolding r_def by auto
  ultimately show ?thesis using sum by blast
qed

theorem market_order_match_sum_witness:
  "matched_sum (fst (process_market_order BUY 1000 ''M''
       (run [AddLimit SELL (100::int) 500 ''A''] (OrderBook_new blank_memory)))) = 500
   \<and> fst (process_market_order BUY 1000 ''M'' (run ([] :: int operation list) (OrderBook_new blank_memory))) = []"
proof -
  have a: "resting (opposing BUY) (run [AddLimit SELL (100::int) 500 ''A''] (OrderBook_new blank_memory)) = 500"
    by code_simp
  have b: "resting (opposing BUY) (run ([] :: int operation list) (OrderBook_new blank_memory)) = 0"
    by code_simp
  from market_order_match_sum [where sd = BUY and q = 1000 and ident = "''M''"
      and ops = "[AddLimit SELL (100::int) 500 ''A'']" and mem = blank_memory]
    market_order_match_sum [where sd = BUY and q = 1000 and ident = "''M''"
      and ops = "[] :: int operation list" and mem = blank_memory] a b
  show ?thesis by simp
qed

text \<open>
  The loop walks either map from \<open>begin()\<close>, so the prices of the matches ascend
  strictly, for a sell order as for a buy order.
\<close>

lemma market_order_prices_ascending:
  "sorted_wrt (<) (map match_price
     (fst (process_market_order sd q ident (run ops (OrderBook_new mem)))))"
  by (rule market_order_prices [OF well_formed_reachable])

lemma buy_market_order_prices_nondecreasing:
  "sorted (map match_price
     (fst (process_market_order BUY q ident (run ops (OrderBook_new mem)))))"
  using market_order_prices_ascending [of BUY q ident ops mem] by (simp add: strict_sorted_iff)

text \<open>
  Claim C1. The match prices are ordered best first: non-decreasing for a buy order
  (\<open>buy_market_order_prices_nondecreasing\<close>), non-increasing for a sell order, which has
  to consume the highest bid first. The code walks the bids in ascending order as
  well: with bids of 500 at 99 and 500 at 100, a sell order for 700 takes 500 at 99 and
  then 200 at 100, where best-first matching takes 500 at 100 and then 200 at 99.
\<close>

theorem sell_market_order_fills_lowest_bid_first:
  "fst (process_market_order SELL 700 ''M''
         (run [AddLimit BUY (99::int) 500 ''A'', AddLimit BUY 100 500 ''B'']
            (OrderBook_new blank_memory)))
   = [\<lparr>match_quantity = 500, match_price = 99, counterparty_id = ''M''\<rparr>,
      \<lparr>match_quantity = 200, match_price = 100, counterparty_id = ''M''\<rparr>]"
  by code_simp

subsection \<open>Depth\<close>

lemma insert_by_less_front:
  "\<forall>y\<in>set ys. fst x < fst y \<Longrightarrow> insert_by (\<lambda>a b. fst a < fst b) x ys = x # (ys :: (('k::linorder) \<times> 'v) list)"
  by (cases ys) simp_all

lemma std_sort_ascending:
  "sorted_wrt (<) (map fst xs) \<Longrightarrow> std_sort (\<lambda>a b. fst a < fst b) xs = (xs :: (('k::linorder) \<times> 'v) list)"
proof (induction xs)
  case Nil
  then show ?case by (simp add: std_sort_def)
next
  case (Cons x xs)
  then have "std_sort (\<lambda>a b. fst a < fst b) xs = xs" by simp
  moreover from Cons.prems have "\<forall>y\<in>set xs. fst x < fst y" by auto
  ultimately show ?case by (simp add: std_sort_def insert_by_less_front)
qed

lemma insert_by_greater_back:
  "\<forall>y\<in>set ys. fst x < fst y \<Longrightarrow> insert_by (\<lambda>a b. fst a > fst b) x ys = (ys :: (('k::linorder) \<times> 'v) list) @ [x]"
  by (induction ys) auto

lemma std_sort_descending:
  "sorted_wrt (<) (map fst xs) \<Longrightarrow> std_sort (\<lambda>a b. fst a > fst b) xs = rev (xs :: (('k::linorder) \<times> 'v) list)"
proof (induction xs)
  case Nil
  then show ?case by (simp add: std_sort_def)
next
  case (Cons x xs)
  then have "std_sort (\<lambda>a b. fst a > fst b) xs = rev xs" by simp
  moreover from Cons.prems have "\<forall>y\<in>set (rev xs). fst x < fst y" by auto
  ultimately show ?case by (simp add: std_sort_def insert_by_greater_back)
qed

lemma get_depth_best_first:
  assumes "well_formed s"
  shows "get_depth sd n s = take n (map snd (if sd = BUY then rev (entries sd s) else entries sd s))"
proof -
  from assms have "sorted_wrt (<) (map fst (entries sd s))"
    by (simp add: well_formed_all side_wf_def)
  then show ?thesis
    by (cases sd) (simp_all add: get_depth_def std_sort_ascending std_sort_descending take_map)
qed

lemma map_price_entries:
  assumes "well_formed s"
  shows "map price (map snd (entries sd s)) = book sd s"
proof -
  from assms have "\<forall>k\<in>set (book sd s). price (level_at s (sd, k)) = k"
    by (simp add: well_formed_all side_wf_def list_all_iff)
  then show ?thesis
    by (simp add: entries_def comp_def map_idI)
qed

lemma depth_prices:
  assumes "well_formed s"
  shows "map price (get_depth sd n s) = take n (if sd = BUY then rev (book sd s) else book sd s)"
proof -
  have "map price (map snd (rev (entries sd s))) = rev (book sd s)"
    using map_price_entries [OF assms, of sd] by (metis rev_map)
  with map_price_entries [OF assms, of sd] show ?thesis
    unfolding get_depth_best_first [OF assms] by (cases sd) (simp_all add: take_map [symmetric])
qed

lemma sorted_wrt_take: "sorted_wrt P xs \<Longrightarrow> sorted_wrt P (take n xs)"
  by (metis append_take_drop_id sorted_wrt_append)

text \<open>
  Claim C8. On a reachable book, \<open>get_depth\<close> returns at most \<open>levels\<close> records of the
  requested side, by value, with weakly decreasing prices for the bids and weakly
  increasing prices for the asks: the values of the first \<open>levels\<close> levels of the
  side, best price first. It is a function of the book and has no effect on it (the
  source method is \<open>const\<close>), and its result is a list of values that no later
  operation on the book can reach.
\<close>

theorem get_depth_sorted_best_first:
  fixes ops :: "('p::{linorder,zero}) operation list" and mem sd levels
  defines "s \<equiv> run ops (OrderBook_new mem)"
  shows "length (get_depth sd levels s) \<le> levels
         \<and> sorted_wrt (\<lambda>a b. a \<ge> b) (map price (get_depth BUY levels s))
         \<and> sorted_wrt (\<lambda>a b. a \<le> b) (map price (get_depth SELL levels s))
         \<and> set (get_depth sd levels s) \<subseteq> set (map snd (entries sd s))
         \<and> get_depth sd levels s
             = take levels (map snd (if sd = BUY then rev (entries sd s) else entries sd s))"
proof -
  have wf: "well_formed s" unfolding s_def by (rule well_formed_reachable)
  then have so: "sorted_wrt (<) (book sd' s)" for sd'
    by (simp add: well_formed_all side_wf_def)
  have "length (get_depth sd levels s) \<le> levels"
    by (simp add: get_depth_best_first [OF wf])
  moreover have "sorted_wrt (\<lambda>a b. a \<ge> b) (map price (get_depth BUY levels s))"
  proof -
    have "sorted_wrt (\<lambda>a b. a > b) (rev (book BUY s))"
      using so [of BUY] by (simp add: sorted_wrt_rev)
    then have "sorted_wrt (\<lambda>a b. a \<ge> b) (rev (book BUY s))"
      by (rule sorted_wrt_mono_rel [rotated]) simp
    then show ?thesis
      by (simp add: depth_prices [OF wf] sorted_wrt_take)
  qed
  moreover have "sorted_wrt (\<lambda>a b. a \<le> b) (map price (get_depth SELL levels s))"
  proof -
    have "sorted_wrt (\<lambda>a b. a \<le> b) (book SELL s)"
      using so [of SELL] by (rule sorted_wrt_mono_rel [rotated]) simp
    then show ?thesis
      by (simp add: depth_prices [OF wf] sorted_wrt_take)
  qed
  moreover have "set (get_depth sd levels s) \<subseteq> set (map snd (entries sd s))"
    using set_take_subset [of levels "map snd (if sd = BUY then rev (entries sd s) else entries sd s)"]
    by (auto simp: get_depth_best_first [OF wf] split: if_splits)
  moreover note get_depth_best_first [OF wf, of sd levels]
  ultimately show ?thesis by blast
qed


subsection \<open>Quantity conservation\<close>

lemma book_new [simp]: "book sd (OrderBook_new mem) = []"
  by (cases sd) (simp_all add: book_def OrderBook_new_def)

lemma level_at_new [simp]: "level_at (OrderBook_new mem) = mem"
  by (simp add: OrderBook_new_def)

lemma bids_book: "bids s = book BUY s"
  by (simp add: book_def)

lemma asks_book: "asks s = book SELL s"
  by (simp add: book_def)

lemmas add_limit_order_state = book_add_limit_order level_at_add_limit_order update_quantity_def

lemma sum_list_map_insort:
  "sum_list (map f (insort p ks)) = f p + sum_list (map (f :: 'k::linorder \<Rightarrow> nat) ks)"
  by (induction ks) simp_all

lemma sum_list_map_change_one:
  "distinct ks \<Longrightarrow> p \<in> set ks \<Longrightarrow> \<forall>k\<in>set ks. k \<noteq> p \<longrightarrow> g k = f k \<Longrightarrow>
   sum_list (map g ks) + f p = sum_list (map f ks) + (g p :: nat)"
proof (induction ks)
  case Nil
  then show ?case by simp
next
  case (Cons k ks)
  show ?case
  proof (cases "k = p")
    case True
    with Cons.prems have "\<forall>k\<in>set ks. g k = f k" by auto
    then have "sum_list (map g ks) = sum_list (map f ks)"
      by (intro arg_cong [where f = sum_list] map_cong) auto
    with True show ?thesis by simp
  next
    case False
    with Cons.prems have "sum_list (map g ks) + f p = sum_list (map f ks) + g p" "g k = f k"
      by (auto intro: Cons.IH)
    then show ?thesis by simp
  qed
qed

lemma resting_add_other:
  "sd' \<noteq> sd \<Longrightarrow> resting sd' (snd (add_limit_order sd p q ident s)) = resting sd' s"
  by (simp add: resting_def book_add_limit_order level_at_add_limit_order)

lemma resting_add_same:
  assumes "well_formed s"
  shows "resting sd (snd (add_limit_order sd p q ident s)) + unat (level_quantity sd p s)
         = resting sd s + unat (level_quantity sd p s + q)"
proof (cases "p \<in> set (book sd s)")
  case True
  from assms have d: "distinct (book sd s)"
    by (simp add: well_formed_all side_wf_distinct)
  let ?s' = "snd (add_limit_order sd p q ident s)"
  have "sum_list (map (\<lambda>k. unat (total_quantity (level_at ?s' (sd, k)))) (book sd s))
          + unat (total_quantity (level_at s (sd, p)))
        = sum_list (map (\<lambda>k. unat (total_quantity (level_at s (sd, k)))) (book sd s))
          + unat (total_quantity (level_at ?s' (sd, p)))"
    by (rule sum_list_map_change_one [OF d True]) (simp add: level_at_add_limit_order)
  with True show ?thesis
    by (simp add: resting_def book_add_limit_order level_quantity_def level_at_add_limit_order
        update_quantity_def)
next
  case False
  let ?s' = "snd (add_limit_order sd p q ident s)"
  have "sum_list (map (\<lambda>k. unat (total_quantity (level_at ?s' (sd, k)))) (book sd s))
        = sum_list (map (\<lambda>k. unat (total_quantity (level_at s (sd, k)))) (book sd s))"
    using False by (intro arg_cong [where f = sum_list] map_cong) (auto simp: level_at_add_limit_order)
  moreover have "level_at ?s' (sd, p) = \<lparr>price = p, total_quantity = q, order_count = 1, padding = 0\<rparr>"
    using False by (simp add: level_at_add_limit_order)
  ultimately show ?thesis using False
    by (simp add: resting_def book_add_limit_order level_quantity_def sum_list_map_insort
        level_at_add_limit_order)
qed

lemma resting_add_fit:
  assumes "well_formed s" and "unat (level_quantity sd p s) + unat q < 2 ^ 32"
  shows "resting sd' (snd (add_limit_order sd p q ident s))
         = resting sd' s + (if sd' = sd then unat q else 0)"
proof (cases "sd' = sd")
  case True
  from assms(2) have "unat (level_quantity sd p s + q) = unat (level_quantity sd p s) + unat q"
    using unat_add_lem [of "level_quantity sd p s" q] by simp
  with resting_add_same [OF assms(1), of sd p q ident] True show ?thesis by simp
next
  case False
  then show ?thesis by (simp add: resting_add_other)
qed

lemma resting_market_same_side:
  "resting sd (snd (process_market_order sd q ident s)) = resting sd s"
proof -
  have "map (\<lambda>e. unat (total_quantity (snd e))) (entries sd (snd (process_market_order sd q ident s)))
        = map (\<lambda>e. unat (total_quantity (snd e))) (entries sd s)"
    by (simp only: entries_market_same_side)
  then show ?thesis by (simp add: resting_def entries_def comp_def)
qed

lemma conservation_run:
  "well_formed s \<Longrightarrow> adds_fit ops s \<Longrightarrow>
   resting sd (run ops s) + consumed_from sd ops s = resting sd s + added_on sd ops"
proof (induction ops arbitrary: s)
  case Nil
  then show ?case by simp
next
  case (Cons op ops)
  show ?case
  proof (cases op)
    case (AddLimit sd' p q ident)
    with Cons.prems have fit: "unat (level_quantity sd' p s) + unat q < 2 ^ 32"
      and rest: "adds_fit ops (apply_operation op s)" by simp_all
    from Cons.IH [OF well_formed_apply [OF Cons.prems(1)] rest]
      resting_add_fit [OF Cons.prems(1) fit, of sd ident]
    show ?thesis by (simp add: AddLimit)
  next
    case (MarketOrder sd' q ident)
    with Cons.prems have rest: "adds_fit ops (apply_operation op s)" by simp
    note IH = Cons.IH [OF well_formed_apply [OF Cons.prems(1)] rest]
    show ?thesis
    proof (cases "opposing sd' = sd")
      case True
      with IH market_order_sums(2) [OF Cons.prems(1), of sd' q ident] show ?thesis
        by (simp add: MarketOrder)
    next
      case False
      then have "sd = sd'" by (cases sd; cases sd') simp_all
      with IH False resting_market_same_side [of sd' q ident s] show ?thesis
        by (simp add: MarketOrder)
    qed
  qed
qed

lemma resting_new: "resting sd (OrderBook_new mem) = 0"
  by (cases sd) (simp_all add: resting_def book_def OrderBook_new_def)

text \<open>
  In 32-bit arithmetic the balance holds of every sequence: what rests on a side is what
  was added to it less what was consumed from it, modulo \<open>2^32\<close>.
\<close>

lemma resting_add_modulo:
  assumes "well_formed s"
  shows "(word_of_nat (resting sd' (snd (add_limit_order sd p q ident s))) :: u32)
         = word_of_nat (resting sd' s) + (if sd' = sd then q else 0)"
proof (cases "sd' = sd")
  case True
  have "(word_of_nat (resting sd (snd (add_limit_order sd p q ident s)) + unat (level_quantity sd p s)) :: u32)
        = word_of_nat (resting sd s + unat (level_quantity sd p s + q))"
    by (simp only: resting_add_same [OF assms])
  with True show ?thesis by simp
next
  case False
  then show ?thesis by (simp add: resting_add_other)
qed

lemma conservation_modulo_run:
  "well_formed s \<Longrightarrow>
   (word_of_nat (resting sd (run ops s)) :: u32) + word_of_nat (consumed_from sd ops s)
     = word_of_nat (resting sd s) + word_of_nat (added_on sd ops)"
proof (induction ops arbitrary: s)
  case Nil
  then show ?case by simp
next
  case (Cons op ops)
  note IH = Cons.IH [OF well_formed_apply [OF Cons.prems]]
  show ?case
  proof (cases op)
    case (AddLimit sd' p q ident)
    from IH [of op] resting_add_modulo [OF Cons.prems, of sd sd' p q ident]
    show ?thesis by (simp add: AddLimit)
  next
    case (MarketOrder sd' q ident)
    show ?thesis
    proof (cases "opposing sd' = sd")
      case True
      have "(word_of_nat (resting (opposing sd') (snd (process_market_order sd' q ident s))
               + matched_sum (fst (process_market_order sd' q ident s))) :: u32)
            = word_of_nat (resting (opposing sd') s)"
        by (simp only: market_order_sums(2) [OF Cons.prems])
      with IH [of op] True show ?thesis
        by (simp add: MarketOrder algebra_simps)
    next
      case False
      then have "sd = sd'" by (cases sd; cases sd') simp_all
      with IH [of op] False resting_market_same_side [of sd' q ident s] show ?thesis
        by (simp add: MarketOrder)
    qed
  qed
qed

lemma quantity_conservation_modulo:
  "(word_of_nat (resting sd (run ops (OrderBook_new mem))) :: u32)
   = word_of_nat (added_on sd ops) - word_of_nat (consumed_from sd ops (OrderBook_new mem))"
  using conservation_modulo_run [OF well_formed_new, of sd ops mem]
  by (simp add: resting_new algebra_simps)

text \<open>
  Claim C4, as the code has it. After a finite sequence of \<open>add_limit_order\<close> and
  \<open>process_market_order\<close> calls on a new book in which no add takes the 32-bit
  \<open>total_quantity\<close> of its level past \<open>2^32 - 1\<close>, the quantities resting on a side
  sum to the limit quantities added on that side less the quantities that market orders
  consumed from it.
\<close>

theorem quantity_conservation_without_overflow:
  "adds_fit ops (OrderBook_new mem) \<Longrightarrow>
   int (resting sd (run ops (OrderBook_new mem)))
     = int (added_on sd ops) - int (consumed_from sd ops (OrderBook_new mem))"
  using conservation_run [OF well_formed_new, of ops mem sd] by (simp add: resting_new)

text \<open>The sweep of three ask levels by a buy order for 800 is such a sequence.\<close>

lemma sweep_fits:
  "adds_fit [AddLimit SELL (100::int) 500 ''A'', AddLimit SELL 101 500 ''B'',
             AddLimit SELL 102 500 ''C'', MarketOrder BUY 800 ''M''] (OrderBook_new blank_memory)"
  by (simp add: level_quantity_def add_limit_order_state set_insort_key)

theorem quantity_conservation_without_overflow_witness:
  "adds_fit [AddLimit SELL (100::int) 500 ''A'', AddLimit SELL 101 500 ''B'',
             AddLimit SELL 102 500 ''C'', MarketOrder BUY 800 ''M''] (OrderBook_new blank_memory)
   \<and> int (resting SELL
        (run [AddLimit SELL (100::int) 500 ''A'', AddLimit SELL 101 500 ''B'',
              AddLimit SELL 102 500 ''C'', MarketOrder BUY 800 ''M''] (OrderBook_new blank_memory)))
     = 1500 - 800"
proof -
  have a: "added_on SELL [AddLimit SELL (100::int) 500 ''A'', AddLimit SELL 101 500 ''B'',
              AddLimit SELL 102 500 ''C'', MarketOrder BUY 800 ''M''] = 1500"
    by simp
  have c: "consumed_from SELL [AddLimit SELL (100::int) 500 ''A'', AddLimit SELL 101 500 ''B'',
              AddLimit SELL 102 500 ''C'', MarketOrder BUY 800 ''M''] (OrderBook_new blank_memory) = 800"
    by code_simp
  from quantity_conservation_without_overflow [OF sweep_fits, of SELL] a c sweep_fits show ?thesis
    by simp
qed

text \<open>
  Claim C4 as stated has no condition on the quantities. Two bids of \<open>2^31\<close> at one
  price add \<open>2^32\<close> to the buy side and nothing is matched, yet the level's
  \<open>total_quantity\<close> has wrapped around to 0 and nothing rests on the side.
\<close>

theorem quantity_conservation_overflow:
  "int (resting BUY (run [AddLimit BUY (100::int) 2147483648 ''A'', AddLimit BUY 100 2147483648 ''B'']
          (OrderBook_new blank_memory)))
   \<noteq> int (added_on BUY [AddLimit BUY (100::int) 2147483648 ''A'', AddLimit BUY 100 2147483648 ''B''])
     - int (consumed_from BUY [AddLimit BUY (100::int) 2147483648 ''A'', AddLimit BUY 100 2147483648 ''B'']
          (OrderBook_new blank_memory))"
  by (simp add: resting_def add_limit_order_state)

subsection \<open>Level non-emptiness\<close>

lemma no_empty_level_all:
  "no_empty_level s \<longleftrightarrow> (\<forall>sd. \<forall>k\<in>set (book sd s). total_quantity (level_at s (sd, k)) \<noteq> 0)"
proof -
  have "(\<forall>sd. P sd) \<longleftrightarrow> P BUY \<and> P SELL" for P
    by (metis Side.exhaust)
  then show ?thesis
    by (simp add: no_empty_level_def list_all_iff bids_book asks_book)
qed

lemma no_empty_level_add:
  assumes "no_empty_level s" and "0 < q" and "unat (level_quantity sd p s) + unat q < 2 ^ 32"
  shows "no_empty_level (snd (add_limit_order sd p q ident s))"
proof -
  have sum: "unat (level_quantity sd p s + q) = unat (level_quantity sd p s) + unat q"
    using assms(3) unat_add_lem [of "level_quantity sd p s" q] by simp
  from assms(2) have "0 < unat q" by (simp add: unat_gt_0)
  with sum have "unat (level_quantity sd p s + q) \<noteq> 0" by simp
  then have nz: "level_quantity sd p s + q \<noteq> 0" by auto
  from assms(2) have q: "q \<noteq> 0" by auto
  show ?thesis
    unfolding no_empty_level_all
  proof (intro allI ballI)
    fix sd' k
    assume k: "k \<in> set (book sd' (snd (add_limit_order sd p q ident s)))"
    show "total_quantity (level_at (snd (add_limit_order sd p q ident s)) (sd', k)) \<noteq> 0"
    proof (cases "(sd', k) = (sd, p)")
      case True
      with nz q show ?thesis
        by (auto simp: level_at_add_limit_order update_quantity_def level_quantity_def)
    next
      case False
      with k have "k \<in> set (book sd' s)"
        by (auto simp: book_add_limit_order set_insort_key split: if_splits)
      with assms(1) False show ?thesis
        by (auto simp: no_empty_level_all level_at_add_limit_order)
    qed
  qed
qed

lemma no_empty_level_market:
  assumes "well_formed s" and "no_empty_level s"
  shows "no_empty_level (snd (process_market_order sd q ident s))"
proof -
  obtain ks' st' ms where ml:
    "match_loop (get_id (set_id ident)) (opposing sd) (book (opposing sd) s) q (level_at s) = (ks', st', ms)"
    by (cases "match_loop (get_id (set_id ident)) (opposing sd) (book (opposing sd) s) q (level_at s)") auto
  let ?s' = "snd (process_market_order sd q ident s)"
  have s': "?s' = set_book (opposing sd) ks' (s\<lparr>level_at := st'\<rparr>)"
    by (simp add: process_market_order_eq ml)
  from assms(1) have d: "distinct (book (opposing sd) s)"
    by (simp add: well_formed_all side_wf_distinct)
  from assms(2) have nz: "\<forall>k\<in>set (book sd' s). total_quantity (level_at s (sd', k)) \<noteq> 0" for sd'
    by (simp add: no_empty_level_all)
  have opp: "\<forall>k\<in>set ks'. total_quantity (st' (opposing sd, k)) \<noteq> 0"
    by (rule match_loop_nonzero [OF d ml nz])
  have own: "st' (sd, k) = level_at s (sd, k)" for k
    by (rule match_loop_frame [OF ml]) (cases sd; auto)
  show ?thesis
    unfolding no_empty_level_all
  proof (intro allI ballI)
    fix sd' k
    assume k: "k \<in> set (book sd' ?s')"
    show "total_quantity (level_at ?s' (sd', k)) \<noteq> 0"
    proof (cases "sd' = opposing sd")
      case True
      with k opp show ?thesis by (simp add: s')
    next
      case False
      then have "sd' = sd" by (cases sd; cases sd') simp_all
      with k nz [of sd] own show ?thesis by (simp add: s')
    qed
  qed
qed

lemma no_empty_level_run:
  "well_formed s \<Longrightarrow> no_empty_level s \<Longrightarrow> adds_positive ops \<Longrightarrow> adds_fit ops s \<Longrightarrow>
   no_empty_level (run ops s)"
proof (induction ops arbitrary: s)
  case Nil
  then show ?case by simp
next
  case (Cons op ops)
  have wf: "well_formed (apply_operation op s)"
    by (rule well_formed_apply [OF Cons.prems(1)])
  show ?case
  proof (cases op)
    case (AddLimit sd p q ident)
    with Cons.prems have "no_empty_level (apply_operation op s)"
      by (simp add: no_empty_level_add)
    with Cons.prems wf show ?thesis
      by (simp add: AddLimit Cons.IH)
  next
    case (MarketOrder sd q ident)
    with Cons.prems have "no_empty_level (apply_operation op s)"
      by (simp add: no_empty_level_market)
    with Cons.prems wf show ?thesis
      by (simp add: MarketOrder Cons.IH)
  qed
qed

lemma no_empty_level_new: "no_empty_level (OrderBook_new mem)"
  by (simp add: no_empty_level_def OrderBook_new_def)

text \<open>
  Claim C6, as the code has it. After a finite sequence of operations on a new book in
  which every limit add has a quantity above 0 and none takes the \<open>total_quantity\<close> of
  its level past \<open>2^32 - 1\<close>, no level of either side has \<open>total_quantity = 0\<close>: the
  matching loop erases a level it drains before it moves on.
\<close>

theorem no_empty_level_without_overflow:
  "adds_positive ops \<Longrightarrow> adds_fit ops (OrderBook_new mem) \<Longrightarrow>
   no_empty_level (run ops (OrderBook_new mem))"
  by (rule no_empty_level_run [OF well_formed_new no_empty_level_new])

theorem no_empty_level_without_overflow_witness:
  "adds_positive [AddLimit SELL (100::int) 500 ''A'', AddLimit SELL 101 500 ''B'',
                  AddLimit SELL 102 500 ''C'', MarketOrder BUY 800 ''M'']
   \<and> adds_fit [AddLimit SELL (100::int) 500 ''A'', AddLimit SELL 101 500 ''B'',
                AddLimit SELL 102 500 ''C'', MarketOrder BUY 800 ''M''] (OrderBook_new blank_memory)
   \<and> no_empty_level
        (run [AddLimit SELL (100::int) 500 ''A'', AddLimit SELL 101 500 ''B'',
              AddLimit SELL 102 500 ''C'', MarketOrder BUY 800 ''M''] (OrderBook_new blank_memory))"
proof -
  have p: "adds_positive [AddLimit SELL (100::int) 500 ''A'', AddLimit SELL 101 500 ''B'',
                  AddLimit SELL 102 500 ''C'', MarketOrder BUY 800 ''M'']"
    by simp
  from p sweep_fits no_empty_level_without_overflow [OF p sweep_fits] show ?thesis by blast
qed

text \<open>
  Claim C6 as stated asks only for quantities above 0. Two bids of \<open>2^31\<close> at one price
  are such adds, and they leave a level with \<open>total_quantity = 0\<close> in the book.
\<close>

theorem level_emptied_by_overflow:
  "adds_positive [AddLimit BUY (100::int) 2147483648 ''A'', AddLimit BUY 100 2147483648 ''B'']
   \<and> \<not> no_empty_level
         (run [AddLimit BUY (100::int) 2147483648 ''A'', AddLimit BUY 100 2147483648 ''B'']
            (OrderBook_new blank_memory))"
  by (simp add: no_empty_level_def bids_book asks_book add_limit_order_state)

subsection \<open>The order count of a level\<close>

lemma market_order_order_count:
  assumes "well_formed s" and "p \<in> set (book (opposing sd) (snd (process_market_order sd q ident s)))"
  shows "order_count (level_at (snd (process_market_order sd q ident s)) (opposing sd, p))
         = order_count (level_at s (opposing sd, p))
           + (if p \<in> set (map match_price (fst (process_market_order sd q ident s))) then 1 else 0)"
proof -
  obtain ks' st' ms where ml:
    "match_loop (get_id (set_id ident)) (opposing sd) (book (opposing sd) s) q (level_at s) = (ks', st', ms)"
    by (cases "match_loop (get_id (set_id ident)) (opposing sd) (book (opposing sd) s) q (level_at s)") auto
  from assms(1) have wf: "side_wf (opposing sd) s" by (simp add: well_formed_all)
  then have d: "distinct (book (opposing sd) s)" by (rule side_wf_distinct)
  from wf have pr: "\<forall>k\<in>set (book (opposing sd) s). price (level_at s (opposing sd, k)) = k"
    by (simp add: side_wf_def list_all_iff)
  from assms(2) have p: "p \<in> set ks'" by (simp add: process_market_order_eq ml)
  from match_loop_order_count [OF d ml pr p] show ?thesis
    by (simp add: process_market_order_eq ml)
qed

lemma market_order_own_side:
  "level_at (snd (process_market_order sd q ident s)) (sd, p) = level_at s (sd, p)"
  "book sd (snd (process_market_order sd q ident s)) = book sd s"
proof -
  obtain ks' st' ms where ml:
    "match_loop (get_id (set_id ident)) (opposing sd) (book (opposing sd) s) q (level_at s) = (ks', st', ms)"
    by (cases "match_loop (get_id (set_id ident)) (opposing sd) (book (opposing sd) s) q (level_at s)") auto
  have "st' (sd, p) = level_at s (sd, p)"
    by (rule match_loop_frame [OF ml]) (cases sd; auto)
  then show "level_at (snd (process_market_order sd q ident s)) (sd, p) = level_at s (sd, p)"
    by (simp add: process_market_order_eq ml)
  show "book sd (snd (process_market_order sd q ident s)) = book sd s"
    by (simp add: process_market_order_eq ml)
qed

lemma market_order_keys_subset:
  "set (book sd' (snd (process_market_order sd q ident s))) \<subseteq> set (book sd' s)"
proof (cases "sd' = opposing sd")
  case True
  with market_order_keys [of sd s q ident] show ?thesis by auto
next
  case False
  then have "sd' = sd" by (cases sd; cases sd') simp_all
  then show ?thesis by (simp add: market_order_own_side)
qed

lemma tally_run:
  "well_formed s \<Longrightarrow>
   (p \<in> set (book sd s) \<longrightarrow> order_count (level_at s (sd, p)) = of_nat (a + f)) \<Longrightarrow>
   (p \<notin> set (book sd s) \<longrightarrow> a = 0 \<and> f = 0) \<Longrightarrow>
   (p \<in> set (book sd (run ops s)) \<longrightarrow>
      order_count (level_at (run ops s) (sd, p))
        = of_nat (limit_adds_at sd p ops s a + partial_fills_at sd p ops s f))
   \<and> (p \<notin> set (book sd (run ops s)) \<longrightarrow>
      limit_adds_at sd p ops s a = 0 \<and> partial_fills_at sd p ops s f = 0)"
proof (induction ops arbitrary: s a f)
  case Nil
  then show ?case by simp
next
  case (Cons op ops)
  have wf: "well_formed (apply_operation op s)"
    by (rule well_formed_apply [OF Cons.prems(1)])
  show ?case
  proof (cases op)
    case (AddLimit sd' p' q ident)
    let ?s1 = "apply_operation op s"
    let ?a1 = "if sd' = sd \<and> p' = p then a + 1 else a"
    have i1: "p \<in> set (book sd ?s1) \<longrightarrow> order_count (level_at ?s1 (sd, p)) = of_nat (?a1 + f)"
      using Cons.prems(2,3)
      by (auto simp: AddLimit book_add_limit_order level_at_add_limit_order update_quantity_def
          set_insort_key split: if_splits)
    have i2: "p \<notin> set (book sd ?s1) \<longrightarrow> ?a1 = 0 \<and> f = 0"
      using Cons.prems(3)
      by (auto simp: AddLimit book_add_limit_order set_insort_key split: if_splits)
    from Cons.IH [OF wf i1 i2] show ?thesis
      by (simp add: AddLimit)
  next
    case (MarketOrder sd' q ident)
    let ?s1 = "apply_operation op s"
    let ?a1 = "if p \<in> set (book sd ?s1) then a else 0"
    let ?f1 = "if p \<in> set (book sd ?s1)
               then (if opposing sd' = sd
                        \<and> p \<in> set (map match_price (fst (process_market_order sd' q ident s)))
                     then f + 1 else f)
               else 0"
    have i1: "p \<in> set (book sd ?s1) \<longrightarrow> order_count (level_at ?s1 (sd, p)) = of_nat (?a1 + ?f1)"
    proof
      assume p1: "p \<in> set (book sd ?s1)"
      with market_order_keys_subset [of sd sd' q ident s] have p0: "p \<in> set (book sd s)"
        by (auto simp: MarketOrder)
      with Cons.prems(2) have c0: "order_count (level_at s (sd, p)) = of_nat (a + f)" by simp
      show "order_count (level_at ?s1 (sd, p)) = of_nat (?a1 + ?f1)"
      proof (cases "opposing sd' = sd")
        case True
        with p1 have "p \<in> set (book (opposing sd') (snd (process_market_order sd' q ident s)))"
          by (simp add: MarketOrder)
        from market_order_order_count [OF Cons.prems(1) this] c0 p1 True show ?thesis
          by (auto simp: MarketOrder)
      next
        case False
        then have "sd' = sd" by (cases sd; cases sd') simp_all
        with c0 p1 False show ?thesis
          by (simp add: MarketOrder market_order_own_side)
      qed
    qed
    have i2: "p \<notin> set (book sd ?s1) \<longrightarrow> ?a1 = 0 \<and> ?f1 = 0"
      by simp
    from Cons.IH [OF wf i1 i2] show ?thesis
      by (simp add: MarketOrder)
  qed
qed

lemma order_count_tally:
  "p \<in> set (book sd (run ops (OrderBook_new mem))) \<Longrightarrow>
   order_count (level_at (run ops (OrderBook_new mem)) (sd, p))
     = of_nat (limit_adds_at sd p ops (OrderBook_new mem) 0
               + partial_fills_at sd p ops (OrderBook_new mem) 0)"
  using tally_run [OF well_formed_new, of p sd mem 0 0 ops] by simp

text \<open>
  Claim C10, as the code has it. The matching loop updates a level through
  \<open>update_quantity\<close>, which adds one to \<open>order_count\<close> whatever the sign of the delta.
  So after a finite sequence of operations on a new book, the \<open>order_count\<close> of a level
  in the book is the number of limit adds at that level plus the number of partial
  market fills that touched it, both counted since the level was created, modulo
  \<open>2^32\<close>.
\<close>

theorem order_count_counts_adds_and_partial_fills:
  assumes "p \<in> set (book sd (run ops (OrderBook_new mem)))"
  shows "unat (order_count (level_at (run ops (OrderBook_new mem)) (sd, p)))
         = (limit_adds_at sd p ops (OrderBook_new mem) 0
            + partial_fills_at sd p ops (OrderBook_new mem) 0) mod 2 ^ 32"
proof -
  have "unat (word_of_nat n :: u32) = n mod 2 ^ 32" for n
    by (simp add: unat_of_nat)
  with order_count_tally [OF assms] show ?thesis
    by (simp only:)
qed

text \<open>One add of 1000 and one partial fill of 600 give an order count of 2.\<close>

theorem order_count_counts_adds_and_partial_fills_witness:
  "100 \<in> set (book SELL (run [AddLimit SELL (100::int) 1000 ''A'', MarketOrder BUY 600 ''M'']
                              (OrderBook_new blank_memory)))
   \<and> limit_adds_at SELL 100 [AddLimit SELL (100::int) 1000 ''A'', MarketOrder BUY 600 ''M'']
         (OrderBook_new blank_memory) 0 = 1
   \<and> partial_fills_at SELL 100 [AddLimit SELL (100::int) 1000 ''A'', MarketOrder BUY 600 ''M'']
         (OrderBook_new blank_memory) 0 = 1
   \<and> unat (order_count (level_at
         (run [AddLimit SELL (100::int) 1000 ''A'', MarketOrder BUY 600 ''M'']
            (OrderBook_new blank_memory)) (SELL, 100))) = 2"
proof -
  have p: "100 \<in> set (book SELL (run [AddLimit SELL (100::int) 1000 ''A'', MarketOrder BUY 600 ''M'']
                              (OrderBook_new blank_memory)))"
    by code_simp
  have a: "limit_adds_at SELL 100 [AddLimit SELL (100::int) 1000 ''A'', MarketOrder BUY 600 ''M'']
         (OrderBook_new blank_memory) 0 = 1"
    by code_simp
  have f: "partial_fills_at SELL 100 [AddLimit SELL (100::int) 1000 ''A'', MarketOrder BUY 600 ''M'']
         (OrderBook_new blank_memory) 0 = 1"
    by code_simp
  from order_count_counts_adds_and_partial_fills [OF p] a f p show ?thesis
    by simp
qed

lemma replicate_adds:
  "limit_adds_at sd p (replicate n (AddLimit sd p q ident)) s a = a + n
   \<and> partial_fills_at sd p (replicate n (AddLimit sd p q ident)) s f = f
   \<and> (0 < n \<longrightarrow> p \<in> set (book sd (run (replicate n (AddLimit sd p q ident)) s)))"
proof (induction n arbitrary: s a)
  case 0
  then show ?case by simp
next
  case (Suc n)
  have "p \<in> set (book sd (run (replicate n (AddLimit sd p q ident)) s'))"
    if "p \<in> set (book sd s')" for s'
    using that by (induction n arbitrary: s') (simp_all add: book_add_limit_order)
  moreover have "p \<in> set (book sd (snd (add_limit_order sd p q ident s)))"
    by (simp add: book_add_limit_order set_insort_key)
  ultimately show ?case
    using Suc.IH [of "snd (add_limit_order sd p q ident s)" "a + 1"] by simp
qed

text \<open>
  Claim C10 as stated equates the 32-bit \<open>order_count\<close> with the number of events.
  After \<open>2^32\<close> limit adds at one price the counter has wrapped around to 0.
\<close>

theorem order_count_wraps_around:
  "unat (order_count (level_at
      (run (replicate (2 ^ 32) (AddLimit BUY (100::int) 1 ''A'')) (OrderBook_new blank_memory))
      (BUY, 100)))
   \<noteq> limit_adds_at BUY 100 (replicate (2 ^ 32) (AddLimit BUY (100::int) 1 ''A''))
         (OrderBook_new blank_memory) 0
     + partial_fills_at BUY 100 (replicate (2 ^ 32) (AddLimit BUY (100::int) 1 ''A''))
         (OrderBook_new blank_memory) 0"
proof -
  define n :: nat where "n = 2 ^ 32"
  define ops where "ops = replicate n (AddLimit BUY (100::int) 1 ''A'')"
  define s0 :: "int OrderBook" where "s0 = OrderBook_new blank_memory"
  have n: "0 < n" "n mod 2 ^ 32 = 0" by (simp_all add: n_def)
  from replicate_adds [of BUY 100 n 1 "''A''" s0 0 0]
  have a: "limit_adds_at BUY 100 ops s0 0 = n"
    and f: "partial_fills_at BUY 100 ops s0 0 = 0"
    and p: "100 \<in> set (book BUY (run ops s0))"
    using n(1) by (simp_all add: ops_def)
  have "unat (word_of_nat m :: u32) = m mod 2 ^ 32" for m
    by (simp add: unat_of_nat)
  with order_count_tally [OF p [unfolded s0_def]] a f n(2)
  have "unat (order_count (level_at (run ops s0) (BUY, 100))) = 0"
    by (simp add: s0_def)
  with a f n(1) have
    "unat (order_count (level_at (run ops s0) (BUY, 100)))
     \<noteq> limit_adds_at BUY 100 ops s0 0 + partial_fills_at BUY 100 ops s0 0"
    by simp
  then show ?thesis
    unfolding ops_def s0_def n_def .
qed

end
